theory Spec2Isabelle
  imports Main
begin

section \<open>Strings\<close>

text \<open>
  JavaScript strings are modelled as \<open>string\<close> (lists of characters). Case conversion
  covers the ASCII letters; every other character is left as it is.
\<close>

definition toLowerChar :: "char \<Rightarrow> char" where
  "toLowerChar c =
     (case map_of (zip ''ABCDEFGHIJKLMNOPQRSTUVWXYZ'' ''abcdefghijklmnopqrstuvwxyz'') c of
        Some l \<Rightarrow> l
      | None \<Rightarrow> c)"

definition toLowerCase :: "string \<Rightarrow> string" where
  "toLowerCase = map toLowerChar"

definition isSpace :: "char \<Rightarrow> bool" where
  "isSpace c = (c \<in> set [CHR '' '', CHR 0x09, CHR 0x0A, CHR 0x0B, CHR 0x0C, CHR 0x0D])"

text \<open>\<open>String.prototype.trim\<close>: white space removed at both ends.\<close>

definition trim :: "string \<Rightarrow> string" where
  "trim str = rev (dropWhile isSpace (rev (dropWhile isSpace str)))"

definition startsWith :: "string \<Rightarrow> string \<Rightarrow> bool" where
  "startsWith str pre = (take (length pre) str = pre)"

definition endsWith :: "string \<Rightarrow> string \<Rightarrow> bool" where
  "endsWith str suf = (length suf \<le> length str \<and> drop (length str - length suf) str = suf)"

fun includes_str :: "string \<Rightarrow> string \<Rightarrow> bool" where
  "includes_str [] sub = (sub = [])"
| "includes_str (c # cs) sub = (startsWith (c # cs) sub \<or> includes_str cs sub)"

text \<open>\<open>str.split(sep)\<close> for a one-character separator: \<open>''a,,b''\<close> gives three pieces,
  the empty string gives one empty piece.\<close>

fun split_on :: "char \<Rightarrow> string \<Rightarrow> string list" where
  "split_on sep [] = [[]]"
| "split_on sep (c # cs) =
     (if c = sep then [] # split_on sep cs
      else (case split_on sep cs of
              [] \<Rightarrow> [[c]]
            | piece # pieces \<Rightarrow> (c # piece) # pieces))"

definition digit :: "nat \<Rightarrow> char" where
  "digit d = ''0123456789'' ! d"

text \<open>Decimal rendering of a counter, as a template literal renders a number.\<close>

function show_nat :: "nat \<Rightarrow> string" where
  "show_nat n = (if n < 10 then [digit n] else show_nat (n div 10) @ [digit (n mod 10)])"
  by pat_completeness auto
termination
  by (relation "measure id") auto

declare show_nat.simps [simp del]

section \<open>Paths\<close>

text \<open>
  A path is an absolute, normalised path: the list of its components below the root
  directory, so \<open>[]\<close> is \<open>/\<close> and \<open>[''home'', ''u'']\<close> is \<open>/home/u\<close>. The functions of
  Node's \<open>path\<close> module are written for this representation (POSIX flavour).
\<close>

type_synonym path = "string list"

definition path_string :: "path \<Rightarrow> string" where
  "path_string p = (if p = [] then ''/'' else concat (map (\<lambda>c. CHR ''/'' # c) p))"

definition dirname :: "path \<Rightarrow> path" where
  "dirname p = butlast p"

definition basename :: "path \<Rightarrow> string" where
  "basename p = (if p = [] then [] else last p)"

text \<open>
  \<open>path.extname\<close> on the last component: from the last dot to the end; empty when the
  component has no dot, when its only dot is its first character, and for \<open>..\<close>.
\<close>

definition extname :: "string \<Rightarrow> string" where
  "extname nm =
     (if CHR ''.'' \<notin> set nm then []
      else let stem = rev (tl (dropWhile (\<lambda>c. c \<noteq> CHR ''.'') (rev nm)));
               after = rev (takeWhile (\<lambda>c. c \<noteq> CHR ''.'') (rev nm))
           in if stem = [] \<or> nm = ''..'' then [] else CHR ''.'' # after)"

text \<open>\<open>path.basename(p, ext)\<close> on the last component: the suffix \<open>ext\<close> is removed when
  the component ends with it and is longer than it.\<close>

definition basename_ext :: "string \<Rightarrow> string \<Rightarrow> string" where
  "basename_ext nm ext =
     (if ext \<noteq> [] \<and> endsWith nm ext \<and> nm \<noteq> ext then take (length nm - length ext) nm else nm)"

text \<open>\<open>path.join(dir, seg)\<close> and \<open>path.resolve\<close> normalise: empty and \<open>.\<close> pieces vanish,
  \<open>..\<close> goes one directory up (and stays at the root).\<close>

definition normalize_step :: "path \<Rightarrow> string \<Rightarrow> path" where
  "normalize_step acc piece =
     (if piece = [] \<or> piece = ''.'' then acc
      else if piece = ''..'' then butlast acc
      else acc @ [piece])"

definition path_join :: "path \<Rightarrow> string \<Rightarrow> path" where
  "path_join dir seg = foldl normalize_step dir (split_on CHR ''/'' seg)"

definition path_resolve :: "path \<Rightarrow> string \<Rightarrow> path" where
  "path_resolve cwd str =
     foldl normalize_step (if startsWith str ''/'' then [] else cwd) (split_on CHR ''/'' str)"

section \<open>Categories (src/categories.js)\<close>

text \<open>A category map is the object's entries in \<open>Object.entries\<close> order.\<close>

type_synonym categories = "(string \<times> string list) list"

definition defaultCategories :: categories where
  "defaultCategories =
    [(''Archives'', [''.zip'', ''.tar'', ''.gz'', ''.rar'', ''.7z'', ''.bz2'', ''.xz'']),
     (''Audio'', [''.mp3'', ''.wav'', ''.flac'', ''.aac'', ''.ogg'', ''.wma'', ''.m4a'']),
     (''Code'', [''.js'', ''.ts'', ''.css'', ''.html'', ''.py'', ''.java'', ''.cpp'', ''.c'', ''.h'',
        ''.jsx'', ''.tsx'', ''.vue'', ''.rb'', ''.go'', ''.rs'', ''.php'', ''.swift'', ''.kt'']),
     (''Documents'', [''.pdf'', ''.doc'', ''.docx'', ''.xls'', ''.xlsx'', ''.ppt'', ''.pptx'', ''.txt'',
        ''.rtf'', ''.odt'', ''.ods'', ''.odp'', ''.md'', ''.csv'']),
     (''Images'', [''.jpg'', ''.jpeg'', ''.png'', ''.gif'', ''.bmp'', ''.tiff'', ''.svg'', ''.webp'',
        ''.ico'', ''.raw'', ''.psd'', ''.ai'']),
     (''Videos'', [''.mp4'', ''.mkv'', ''.avi'', ''.mov'', ''.wmv'', ''.flv'', ''.webm'', ''.m4v'',
        ''.mpeg'', ''.mpg'']),
     (''Executables'', [''.exe'', ''.msi'', ''.dmg'', ''.app'', ''.deb'', ''.rpm'', ''.sh'', ''.bat'',
        ''.cmd'']),
     (''Fonts'', [''.ttf'', ''.otf'', ''.woff'', ''.woff2'', ''.eot'']),
     (''Others'', [])]"

text \<open>The \<open>for ... of Object.entries(categories)\<close> loop of \<open>getCategory\<close>.\<close>

fun getCategory_loop :: "string \<Rightarrow> categories \<Rightarrow> string" where
  "getCategory_loop extension [] = ''Others''"
| "getCategory_loop extension ((category, extensions) # rest) =
     (if toLowerCase extension \<in> set extensions then category
      else getCategory_loop extension rest)"

text \<open>The extension argument is \<open>None\<close> when it is \<open>undefined\<close> or \<open>null\<close>; the test
  \<open>!extension\<close> also holds of the empty string.\<close>

definition getCategory :: "string option \<Rightarrow> categories \<Rightarrow> string" where
  "getCategory extension cats =
     (case extension of
        None \<Rightarrow> ''Others''
      | Some e \<Rightarrow> if e = [] then ''Others'' else getCategory_loop e cats)"

section \<open>The file system\<close>

text \<open>
  The operation log (src/logger.js): a move operation, a batch, and the log as the list
  of its batches, oldest first.
\<close>

record move_op =
  original :: path
  movedTo :: path

record batch =
  timestamp :: string
  operations :: "move_op list"

text \<open>
  What a file holds: \<open>LogText log\<close> is a text that \<open>JSON.parse\<close> reads as the array \<open>log\<close> of
  batches (what \<open>JSON.stringify\<close> writes); \<open>Bytes n\<close> is any content that \<open>JSON.parse\<close>
  rejects, \<open>n\<close> telling such contents apart. A text that parses to a value other than
  an array of batches is not represented.
\<close>

datatype content = Bytes nat | LogText "batch list"

text \<open>A point in time, as far as the program reads it: \<open>toISOString()\<close>, \<open>getFullYear()\<close>
  and \<open>getMonth()\<close>.\<close>

record date =
  iso :: string
  year :: nat
  month :: nat

text \<open>A regular file: its content, its modification time, and whether the system refuses
  to rename, rewrite or remove it (an immutable file; the call fails with EPERM).\<close>

record finfo =
  content :: content
  mtime :: date
  immutable :: bool

text \<open>
  What a path can hold: a regular file, a directory, or a broken symbolic link. A broken
  link is a link that no call can follow, because its target lies in a directory that
  does not exist: \<open>access\<close>, \<open>stat\<close>, \<open>readdir\<close>, \<open>readFile\<close> and \<open>writeFile\<close> go through the
  link and fail on it, while \<open>readdir\<close> of its directory lists it and \<open>rename\<close>, \<open>unlink\<close>
  and \<open>rmdir\<close> work on the link itself. Links that can be followed are not represented.
\<close>

datatype node = File finfo | Dir | BrokenLink

datatype errno = ENOENT | ENOTDIR | EEXIST | EISDIR | EPERM | ENOTEMPTY | EINVAL

datatype error =
    InvalidTargetDir
  | DirectoryDoesNotExist path
  | PathIsNotADirectory path
  | ConfigError
  | TypeError
  | FsError errno

text \<open>
  The state of the disk: the entries that exist, each with its node, in the order in
  which directory listings show them. Only the program changes it (no other process
  runs).
\<close>

type_synonym fs = "(path \<times> node) list"

definition fs_lookup :: "fs \<Rightarrow> path \<Rightarrow> node option" where
  "fs_lookup s p = map_of s p"

text \<open>\<open>fs.access(p)\<close>: \<open>True\<close> when the promise resolves, \<open>False\<close> when it rejects. The call
  follows links, so it rejects a path that has no entry and also a path whose entry is
  a broken link.\<close>

definition fs_access :: "fs \<Rightarrow> path \<Rightarrow> bool" where
  "fs_access s p =
     (case fs_lookup s p of
        None \<Rightarrow> False
      | Some (File i) \<Rightarrow> True
      | Some Dir \<Rightarrow> True
      | Some BrokenLink \<Rightarrow> False)"

text \<open>\<open>fs.stat(p)\<close> follows links as well: what it returns is a regular file or a
  directory, never a link.\<close>

definition fs_stat :: "fs \<Rightarrow> path \<Rightarrow> error + node" where
  "fs_stat s p =
     (case fs_lookup s p of
        None \<Rightarrow> Inl (FsError ENOENT)
      | Some (File i) \<Rightarrow> Inr (File i)
      | Some Dir \<Rightarrow> Inr Dir
      | Some BrokenLink \<Rightarrow> Inl (FsError ENOENT))"

definition children :: "fs \<Rightarrow> path \<Rightarrow> string list" where
  "children s d = map (\<lambda>(p, n). last p) (filter (\<lambda>(p, n). p \<noteq> [] \<and> butlast p = d) s)"

definition fs_readdir :: "fs \<Rightarrow> path \<Rightarrow> error + string list" where
  "fs_readdir s d =
     (case fs_lookup s d of
        None \<Rightarrow> Inl (FsError ENOENT)
      | Some (File i) \<Rightarrow> Inl (FsError ENOTDIR)
      | Some Dir \<Rightarrow> Inr (children s d)
      | Some BrokenLink \<Rightarrow> Inl (FsError ENOENT))"

definition remove_entry :: "path \<Rightarrow> fs \<Rightarrow> fs" where
  "remove_entry p s = filter (\<lambda>(q, n). q \<noteq> p) s"

text \<open>\<open>fs.mkdir(p, {recursive: true})\<close>: every missing directory along \<open>p\<close> is created;
  a regular file or a broken link in the way is an error.\<close>

fun mkdirs :: "fs \<Rightarrow> path \<Rightarrow> string list \<Rightarrow> error + fs" where
  "mkdirs s done [] = Inr s"
| "mkdirs s done (c # cs) =
     (case fs_lookup s (done @ [c]) of
        Some Dir \<Rightarrow> mkdirs s (done @ [c]) cs
      | Some (File i) \<Rightarrow> Inl (FsError (if cs = [] then EEXIST else ENOTDIR))
      | Some BrokenLink \<Rightarrow> Inl (FsError ENOENT)
      | None \<Rightarrow> mkdirs (s @ [(done @ [c], Dir)]) (done @ [c]) cs)"

definition fs_mkdir_p :: "fs \<Rightarrow> path \<Rightarrow> error + fs" where
  "fs_mkdir_p s p = mkdirs s [] p"

definition node_immutable :: "node \<Rightarrow> bool" where
  "node_immutable n = (case n of File i \<Rightarrow> immutable i | Dir \<Rightarrow> False | BrokenLink \<Rightarrow> False)"

text \<open>
  \<open>fs.rename(src, dst)\<close>, as rename(2): the source must exist and be movable, the
  directory of the destination must exist; a regular file replaces a regular file or a
  link at the destination (this is how a move can overwrite), and so does a link, which
  is moved as the link it is; a directory replaces an empty one and takes everything
  below it along.
\<close>

definition fs_rename :: "fs \<Rightarrow> path \<Rightarrow> path \<Rightarrow> error + fs" where
  "fs_rename s src dst =
     (case fs_lookup s src of
        None \<Rightarrow> Inl (FsError ENOENT)
      | Some n \<Rightarrow>
          if node_immutable n then Inl (FsError EPERM)
          else if dst = [] \<or> fs_lookup s (butlast dst) \<noteq> Some Dir then Inl (FsError ENOENT)
          else if src = dst then Inr s
          else (case n of
                  File i \<Rightarrow>
                    (case fs_lookup s dst of
                       Some Dir \<Rightarrow> Inl (FsError EISDIR)
                     | _ \<Rightarrow> Inr ((dst, n) # remove_entry src (remove_entry dst s)))
                | BrokenLink \<Rightarrow>
                    (case fs_lookup s dst of
                       Some Dir \<Rightarrow> Inl (FsError EISDIR)
                     | _ \<Rightarrow> Inr ((dst, n) # remove_entry src (remove_entry dst s)))
                | Dir \<Rightarrow>
                    (case fs_lookup s dst of
                       Some (File j) \<Rightarrow> Inl (FsError ENOTDIR)
                     | Some BrokenLink \<Rightarrow> Inl (FsError ENOTDIR)
                     | _ \<Rightarrow>
                       if take (length src) dst = src then Inl (FsError EINVAL)
                       else if children s dst \<noteq> [] then Inl (FsError ENOTEMPTY)
                       else Inr (map (\<lambda>(p, m). if take (length src) p = src
                                                then (dst @ drop (length src) p, m) else (p, m))
                                   (remove_entry dst s)))))"

definition fs_readFile :: "fs \<Rightarrow> path \<Rightarrow> error + content" where
  "fs_readFile s p =
     (case fs_lookup s p of
        None \<Rightarrow> Inl (FsError ENOENT)
      | Some Dir \<Rightarrow> Inl (FsError EISDIR)
      | Some BrokenLink \<Rightarrow> Inl (FsError ENOENT)
      | Some (File i) \<Rightarrow> Inr (content i))"

text \<open>\<open>fs.writeFile(p, text)\<close> at time \<open>now\<close>: creates the file or replaces its content;
  through a broken link it can do neither.\<close>

definition fs_writeFile :: "date \<Rightarrow> fs \<Rightarrow> path \<Rightarrow> content \<Rightarrow> error + fs" where
  "fs_writeFile now s p c =
     (if p = [] then Inl (FsError EISDIR)
      else if fs_lookup s (butlast p) \<noteq> Some Dir then Inl (FsError ENOENT)
      else (case fs_lookup s p of
              Some Dir \<Rightarrow> Inl (FsError EISDIR)
            | Some BrokenLink \<Rightarrow> Inl (FsError ENOENT)
            | Some (File i) \<Rightarrow>
                if immutable i then Inl (FsError EPERM)
                else Inr (map (\<lambda>(q, n). if q = p then (q, File (i\<lparr>content := c, mtime := now\<rparr>))
                                          else (q, n)) s)
            | None \<Rightarrow> Inr (s @ [(p, File \<lparr>content = c, mtime = now, immutable = False\<rparr>)])))"

definition fs_unlink :: "fs \<Rightarrow> path \<Rightarrow> error + fs" where
  "fs_unlink s p =
     (case fs_lookup s p of
        None \<Rightarrow> Inl (FsError ENOENT)
      | Some Dir \<Rightarrow> Inl (FsError EISDIR)
      | Some BrokenLink \<Rightarrow> Inr (remove_entry p s)
      | Some (File i) \<Rightarrow> if immutable i then Inl (FsError EPERM) else Inr (remove_entry p s))"

definition fs_rmdir :: "fs \<Rightarrow> path \<Rightarrow> error + fs" where
  "fs_rmdir s p =
     (case fs_lookup s p of
        None \<Rightarrow> Inl (FsError ENOENT)
      | Some (File i) \<Rightarrow> Inl (FsError ENOTDIR)
      | Some BrokenLink \<Rightarrow> Inl (FsError ENOTDIR)
      | Some Dir \<Rightarrow> if children s p \<noteq> [] then Inl (FsError ENOTEMPTY) else Inr (remove_entry p s))"

section \<open>The unique path resolver (src/utils.js)\<close>

text \<open>The candidate of the loop body for a given counter:
  \<open>path.join(dir, `${baseName}(${counter})${ext}`)\<close>.\<close>

definition numbered :: "path \<Rightarrow> nat \<Rightarrow> path" where
  "numbered targetPath counter =
     (let dir = dirname targetPath;
          ext = extname (basename targetPath);
          baseName = basename_ext (basename targetPath) ext
      in dir @ [baseName @ ''('' @ show_nat counter @ '')'' @ ext])"

lemma length_show_nat: "0 < length (show_nat n)"
  by (subst show_nat.simps) simp

lemma digit_inj: "a < 10 \<Longrightarrow> b < 10 \<Longrightarrow> digit a = digit b \<Longrightarrow> a = b"
  unfolding digit_def by (simp add: nth_Cons' split: if_splits)

lemma show_nat_inj: "show_nat m = show_nat n \<Longrightarrow> m = n"
proof (induction m arbitrary: n rule: show_nat.induct)
  case (1 m)
  show ?case
  proof (cases "m < 10")
    case small_m: True
    show ?thesis
    proof (cases "n < 10")
      case True
      with small_m "1.prems" show ?thesis
        by (simp add: show_nat.simps[of m] show_nat.simps[of n] digit_inj)
    next
      case False
      have "length (show_nat n) = Suc (length (show_nat (n div 10)))"
        using False by (subst show_nat.simps) simp
      moreover have "length (show_nat m) = 1"
        using small_m by (subst show_nat.simps) simp
      ultimately show ?thesis
        using "1.prems" length_show_nat[of "n div 10"] by simp
    qed
  next
    case big_m: False
    show ?thesis
    proof (cases "n < 10")
      case True
      have "length (show_nat m) = Suc (length (show_nat (m div 10)))"
        using big_m by (subst show_nat.simps) simp
      moreover have "length (show_nat n) = 1"
        using True by (subst show_nat.simps) simp
      ultimately show ?thesis
        using "1.prems" length_show_nat[of "m div 10"] by simp
    next
      case False
      from "1.prems" big_m False
      have eq: "show_nat (m div 10) @ [digit (m mod 10)] = show_nat (n div 10) @ [digit (n mod 10)]"
        by (simp add: show_nat.simps[of m] show_nat.simps[of n])
      then have "show_nat (m div 10) = show_nat (n div 10)" and d: "digit (m mod 10) = digit (n mod 10)"
        by simp_all
      with "1.IH" big_m have "m div 10 = n div 10"
        by simp
      moreover have "m mod 10 = n mod 10"
        using d by (intro digit_inj) simp_all
      ultimately show ?thesis
        by (metis div_mult_mod_eq)
    qed
  qed
qed

lemma numbered_inj: "numbered p j = numbered p k \<Longrightarrow> j = k"
  by (auto simp: numbered_def Let_def dest: show_nat_inj)

lemma fs_access_iff:
  "fs_access s p \<longleftrightarrow> (\<exists>i. fs_lookup s p = Some (File i)) \<or> fs_lookup s p = Some Dir"
  by (auto simp: fs_access_def split: option.splits node.splits)


lemma fs_stat_iff:
  "fs_stat s p = Inr n \<longleftrightarrow> fs_lookup s p = Some n \<and> n \<noteq> BrokenLink"
  by (auto simp: fs_stat_def split: option.splits node.splits)

lemma finite_numbered_existing: "finite {k. c \<le> k \<and> fs_access s (numbered p k)}"
proof -
  have "{k. c \<le> k \<and> fs_access s (numbered p k)} \<subseteq> numbered p -` (fst ` set s)"
    by (auto simp: fs_access_iff fs_lookup_def dest!: map_of_SomeD) force+
  moreover have "finite (numbered p -` (fst ` set s))"
    by (intro finite_vimageI) (auto simp: inj_on_def dest: numbered_inj)
  ultimately show ?thesis
    by (rule finite_subset)
qed

text \<open>
  \<open>getUniqueFilePath\<close>: the \<open>while (true)\<close> loop with its two variables. It ends because
  the candidates are pairwise different and the disk holds finitely many entries.
\<close>

function getUniqueFilePath_loop :: "fs \<Rightarrow> path \<Rightarrow> path \<Rightarrow> nat \<Rightarrow> path" where
  "getUniqueFilePath_loop s targetPath uniquePath counter =
     (if fs_access s uniquePath
      then getUniqueFilePath_loop s targetPath (numbered targetPath counter) (counter + 1)
      else uniquePath)"
  by pat_completeness auto
termination
proof (relation "measure (\<lambda>(s, targetPath, uniquePath, counter).
          2 * card {k. counter \<le> k \<and> fs_access s (numbered targetPath k)}
          + (if fs_access s uniquePath then 1 else 0))", goal_cases)
  case 1
  show ?case by simp
next
  case (2 s targetPath uniquePath counter)
  let ?A = "\<lambda>c. {k. c \<le> k \<and> fs_access s (numbered targetPath k)}"
  have fin: "finite (?A (counter + 1))"
    by (rule finite_numbered_existing)
  show ?case
  proof (cases "fs_access s (numbered targetPath counter)")
    case True
    then have "?A counter = insert counter (?A (counter + 1))"
      by (auto simp: le_Suc_eq)
    moreover have "counter \<notin> ?A (counter + 1)"
      by simp
    ultimately have "card (?A counter) = Suc (card (?A (counter + 1)))"
      using fin by (simp del: One_nat_def)
    with 2 True show ?thesis by simp
  next
    case False
    then have "?A counter = ?A (counter + 1)"
      by (auto simp: Suc_le_eq intro: le_neq_trans)
    with 2 False show ?thesis by simp
  qed
qed

declare getUniqueFilePath_loop.simps [simp del]

definition getUniqueFilePath :: "fs \<Rightarrow> path \<Rightarrow> path" where
  "getUniqueFilePath s targetPath = getUniqueFilePath_loop s targetPath targetPath 1"

definition months :: "string list" where
  "months = [''Jan'', ''Feb'', ''Mar'', ''Apr'', ''May'', ''Jun'', ''Jul'', ''Aug'', ''Sep'', ''Oct'',
     ''Nov'', ''Dec'']"

text \<open>\<open>months[date.getMonth()]\<close>: \<open>None\<close> is \<open>undefined\<close>.\<close>

definition getMonthName :: "date \<Rightarrow> string option" where
  "getMonthName d = (if month d < length months then Some (months ! month d) else None)"

definition shouldIgnore :: "path \<Rightarrow> string list \<Rightarrow> bool" where
  "shouldIgnore filePath ignorePatterns =
     (if ignorePatterns = [] then False
      else let fileName = basename filePath
           in list_ex (\<lambda>pattern.
                 if startsWith pattern ''*.'' then endsWith fileName (drop 1 pattern)
                 else fileName = pattern \<or> includes_str (path_string filePath) pattern)
               ignorePatterns)"

section \<open>The operation log (logger module)\<close>

definition LOG_FILE_NAME :: string where
  "LOG_FILE_NAME = ''.segre-log.json''"

text \<open>\<open>JSON.parse\<close> of a file's content; \<open>None\<close> when it throws.\<close>

definition JSON_parse :: "content \<Rightarrow> batch list option" where
  "JSON_parse c = (case c of Bytes n \<Rightarrow> None | LogText log \<Rightarrow> Some log)"

text \<open>The time \<open>now\<close> is what \<open>new Date()\<close> returns during the call.\<close>

definition saveLog :: "date \<Rightarrow> fs \<Rightarrow> path \<Rightarrow> move_op list \<Rightarrow> error + fs" where
  "saveLog now s targetDir ops =
     (let logPath = targetDir @ [LOG_FILE_NAME];
          existingLog = (case fs_readFile s logPath of
                           Inl err \<Rightarrow> []
                         | Inr c \<Rightarrow> (case JSON_parse c of None \<Rightarrow> [] | Some lg \<Rightarrow> lg));
          newLog = \<lparr>timestamp = iso now, operations = ops\<rparr>
      in fs_writeFile now s logPath (LogText (existingLog @ [newLog])))"

text \<open>\<open>readLog\<close>: \<open>None\<close> is the \<open>null\<close> of the \<open>catch\<close> branch.\<close>

definition readLog :: "fs \<Rightarrow> path \<Rightarrow> batch list option" where
  "readLog s targetDir =
     (case fs_readFile s (targetDir @ [LOG_FILE_NAME]) of
        Inl err \<Rightarrow> None
      | Inr c \<Rightarrow> JSON_parse c)"

definition updateLog :: "date \<Rightarrow> fs \<Rightarrow> path \<Rightarrow> batch list \<Rightarrow> error + fs" where
  "updateLog now s targetDir lg =
     (let logPath = targetDir @ [LOG_FILE_NAME]
      in if length lg > 0 then fs_writeFile now s logPath (LogText lg)
         else fs_unlink s logPath)"

section \<open>File discovery (src/organizer.js)\<close>

record file_entry =
  entry_name :: string
  entry_path :: path
  entry_stats :: finfo

definition is_below :: "path \<Rightarrow> path \<Rightarrow> bool" where
  "is_below dir p = (length dir < length p \<and> take (length dir) p = dir)"

definition below :: "fs \<Rightarrow> path \<Rightarrow> nat" where
  "below s dir = length (filter (\<lambda>(p, n). is_below dir p) s)"

lemma length_filter_strict:
  "\<forall>x \<in> set xs. P x \<longrightarrow> Q x \<Longrightarrow> \<exists>x \<in> set xs. Q x \<and> \<not> P x
    \<Longrightarrow> length (filter P xs) < length (filter Q xs)"
proof (induction xs)
  case Nil
  then show ?case by simp
next
  case (Cons x xs)
  have mono: "length (filter P xs) \<le> length (filter Q xs)"
    using Cons.prems(1) by (induction xs) auto
  show ?case
  proof (cases "\<exists>y \<in> set xs. Q y \<and> \<not> P y")
    case True
    with Cons have "length (filter P xs) < length (filter Q xs)" by simp
    with Cons.prems(1) show ?thesis by auto
  next
    case False
    with Cons.prems(2) have "Q x \<and> \<not> P x" by auto
    with mono show ?thesis by simp
  qed
qed

lemma below_child: "fs_lookup s (dir @ [entry]) \<noteq> None \<Longrightarrow> below s (dir @ [entry]) < below s dir"
proof -
  assume "fs_lookup s (dir @ [entry]) \<noteq> None"
  then obtain n where "(dir @ [entry], n) \<in> set s"
    by (auto simp: fs_lookup_def dest: map_of_SomeD)
  moreover have "is_below dir (dir @ [entry])" "\<not> is_below (dir @ [entry]) (dir @ [entry])"
    by (simp_all add: is_below_def)
  moreover have "is_below dir p" if "is_below (dir @ [entry]) p" for p
  proof -
    have "take (length dir) p = take (length dir) (take (Suc (length dir)) p)"
      by (simp add: min_def)
    also have "\<dots> = take (length dir) (dir @ [entry])"
      using that by (simp add: is_below_def)
    finally show ?thesis
      using that by (simp add: is_below_def)
  qed
  ultimately show ?thesis
    unfolding below_def by (intro length_filter_strict) auto
qed

text \<open>
  \<open>collectFilesRecursively\<close>: the loop over the entries of one directory, with the
  directory's listing as the last argument. The recursion ends because each call
  descends into an existing directory strictly below the current one. The body tests
  \<open>stats.isFile()\<close>, then \<open>stats.isDirectory() && options.recursive\<close>, and does nothing with
  an entry that is neither; that is the last case below, here and in the other loops
  over a listing.
\<close>

function collect_entries ::
  "fs \<Rightarrow> path \<Rightarrow> path \<Rightarrow> string list \<Rightarrow> string list \<Rightarrow> bool \<Rightarrow> string list \<Rightarrow> error + file_entry list"
where
  "collect_entries s dir baseDir categoryFolders ignorePatterns rec [] = Inr []"
| "collect_entries s dir baseDir categoryFolders ignorePatterns rec (entry # entries) =
     (let entryPath = dir @ [entry] in
      if entry = LOG_FILE_NAME
      then collect_entries s dir baseDir categoryFolders ignorePatterns rec entries
      else if shouldIgnore entryPath ignorePatterns
      then collect_entries s dir baseDir categoryFolders ignorePatterns rec entries
      else if dir = baseDir \<and> entry \<in> set categoryFolders
      then collect_entries s dir baseDir categoryFolders ignorePatterns rec entries
      else (case fs_stat s entryPath of
              Inl err \<Rightarrow> Inl err
            | Inr (File i) \<Rightarrow>
                (case collect_entries s dir baseDir categoryFolders ignorePatterns rec entries of
                   Inl err \<Rightarrow> Inl err
                 | Inr files \<Rightarrow>
                     Inr (\<lparr>entry_name = entry, entry_path = entryPath, entry_stats = i\<rparr> # files))
            | Inr Dir \<Rightarrow>
                if rec then
                  (if entry \<in> set categoryFolders
                   then collect_entries s dir baseDir categoryFolders ignorePatterns rec entries
                   else (case fs_readdir s entryPath of
                           Inl err \<Rightarrow> Inl err
                         | Inr subEntries \<Rightarrow>
                             (case collect_entries s entryPath baseDir categoryFolders
                                     ignorePatterns rec subEntries of
                                Inl err \<Rightarrow> Inl err
                              | Inr subFiles \<Rightarrow>
                                  (case collect_entries s dir baseDir categoryFolders
                                          ignorePatterns rec entries of
                                     Inl err \<Rightarrow> Inl err
                                   | Inr files \<Rightarrow> Inr (subFiles @ files)))))
                else collect_entries s dir baseDir categoryFolders ignorePatterns rec entries
            | Inr BrokenLink \<Rightarrow>
                collect_entries s dir baseDir categoryFolders ignorePatterns rec entries))"
  by pat_completeness auto
termination
  by (relation "measures [\<lambda>(s, dir, baseDir, cf, ip, rec, es). below s dir,
                          \<lambda>(s, dir, baseDir, cf, ip, rec, es). length es]")
     (auto simp: fs_stat_iff below_child)

declare collect_entries.simps [simp del]

definition collectFilesRecursively ::
  "fs \<Rightarrow> path \<Rightarrow> path \<Rightarrow> string list \<Rightarrow> string list \<Rightarrow> bool \<Rightarrow> error + file_entry list"
where
  "collectFilesRecursively s dir baseDir categoryFolders ignorePatterns rec =
     (case fs_readdir s dir of
        Inl err \<Rightarrow> Inl err
      | Inr entries \<Rightarrow> collect_entries s dir baseDir categoryFolders ignorePatterns rec entries)"

text \<open>The non-recursive scan inside \<open>organizeDirectory\<close>, as a loop over the listing.\<close>

fun scan_entries ::
  "fs \<Rightarrow> path \<Rightarrow> string list \<Rightarrow> string list \<Rightarrow> string list \<Rightarrow> error + file_entry list"
where
  "scan_entries s targetDir categoryFolders ignorePatterns [] = Inr []"
| "scan_entries s targetDir categoryFolders ignorePatterns (file # files) =
     (let filePath = targetDir @ [file] in
      if file = LOG_FILE_NAME
      then scan_entries s targetDir categoryFolders ignorePatterns files
      else if shouldIgnore filePath ignorePatterns
      then scan_entries s targetDir categoryFolders ignorePatterns files
      else if file \<in> set categoryFolders
      then scan_entries s targetDir categoryFolders ignorePatterns files
      else (case fs_stat s filePath of
              Inl err \<Rightarrow> Inl err
            | Inr (File i) \<Rightarrow>
                (case scan_entries s targetDir categoryFolders ignorePatterns files of
                   Inl err \<Rightarrow> Inl err
                 | Inr found \<Rightarrow>
                     Inr (\<lparr>entry_name = file, entry_path = filePath, entry_stats = i\<rparr> # found))
            | Inr Dir \<Rightarrow> scan_entries s targetDir categoryFolders ignorePatterns files
            | Inr BrokenLink \<Rightarrow> scan_entries s targetDir categoryFolders ignorePatterns files))"

text \<open>The file list of a run: \<open>filesToProcess\<close>.\<close>

definition discover ::
  "fs \<Rightarrow> path \<Rightarrow> string list \<Rightarrow> string list \<Rightarrow> bool \<Rightarrow> error + file_entry list"
where
  "discover s targetDir categoryFolders ignorePatterns rec =
     (if rec then collectFilesRecursively s targetDir targetDir categoryFolders ignorePatterns rec
      else (case fs_readdir s targetDir of
              Inl err \<Rightarrow> Inl err
            | Inr files \<Rightarrow> scan_entries s targetDir categoryFolders ignorePatterns files))"

section \<open>The directory pruner (src/organizer.js)\<close>

text \<open>The check after the recursive call: the directory is read again and removed when
  it is empty; every failure is swallowed by the \<open>catch\<close>.\<close>

definition remove_if_empty :: "fs \<Rightarrow> path \<Rightarrow> fs" where
  "remove_if_empty s p =
     (case fs_readdir s p of
        Inl err \<Rightarrow> s
      | Inr contents \<Rightarrow>
          if length contents = 0
          then (case fs_rmdir s p of Inl err \<Rightarrow> s | Inr s' \<Rightarrow> s')
          else s)"

text \<open>
  \<open>cleanupEmptyDirectories\<close>: the loop over the listing of one directory. A failure of
  \<open>stat\<close>, or of \<open>readdir\<close> at the start of the recursive call, is caught in the loop body.
  The state passed on comes out of the recursive call, so termination rests on the fact
  that the pruner only ever removes entries.
\<close>

function cleanup_entries :: "fs \<Rightarrow> path \<Rightarrow> string list \<Rightarrow> string list \<Rightarrow> fs" where
  "cleanup_entries s dir categoryFolders [] = s"
| "cleanup_entries s dir categoryFolders (entry # entries) =
     (if entry \<in> set categoryFolders then cleanup_entries s dir categoryFolders entries
      else (case fs_stat s (dir @ [entry]) of
              Inl err \<Rightarrow> cleanup_entries s dir categoryFolders entries
            | Inr (File i) \<Rightarrow> cleanup_entries s dir categoryFolders entries
            | Inr Dir \<Rightarrow>
                (case fs_readdir s (dir @ [entry]) of
                   Inl err \<Rightarrow> cleanup_entries s dir categoryFolders entries
                 | Inr subEntries \<Rightarrow>
                     cleanup_entries
                       (remove_if_empty (cleanup_entries s (dir @ [entry]) categoryFolders subEntries)
                          (dir @ [entry]))
                       dir categoryFolders entries)
            | Inr BrokenLink \<Rightarrow> cleanup_entries s dir categoryFolders entries))"
  by pat_completeness auto

lemma remove_if_empty_shrinks: "length (filter Q (remove_if_empty s p)) \<le> length (filter Q s)"
proof -
  have "length (filter Q (remove_entry p s)) \<le> length (filter Q s)"
    unfolding remove_entry_def
    by (induction s) (auto simp: le_SucI)
  then show ?thesis
    by (auto simp: remove_if_empty_def fs_rmdir_def split: sum.splits option.splits node.splits)
qed

lemma cleanup_entries_shrinks:
  "cleanup_entries_dom (s, dir, cf, es) \<Longrightarrow>
     length (filter Q (cleanup_entries s dir cf es)) \<le> length (filter Q s)"
proof (induction s dir cf es rule: cleanup_entries.pinduct)
  case (1 s dir categoryFolders)
  then show ?case by (simp add: cleanup_entries.psimps)
next
  case (2 s dir categoryFolders entry entries)
  note simp = cleanup_entries.psimps(2)[OF "2.hyps"(1)]
  show ?case
  proof (cases "entry \<in> set categoryFolders")
    case True
    with "2.IH"(1) show ?thesis by (simp add: simp)
  next
    case False
    show ?thesis
    proof (cases "fs_stat s (dir @ [entry])")
      case (Inl err)
      with False "2.IH"(2) show ?thesis by (simp add: simp)
    next
      case (Inr n)
      show ?thesis
      proof (cases n)
        case (File i)
        with False Inr "2.IH"(3) show ?thesis by (simp add: simp)
      next
        case Dir
        show ?thesis
        proof (cases "fs_readdir s (dir @ [entry])")
          case (Inl err)
          with False Inr Dir "2.IH"(4) show ?thesis by (simp add: simp)
        next
          case sub: (Inr subEntries)
          let ?s1 = "cleanup_entries s (dir @ [entry]) categoryFolders subEntries"
          let ?s2 = "remove_if_empty ?s1 (dir @ [entry])"
          have "length (filter Q (cleanup_entries ?s2 dir categoryFolders entries)) \<le> length (filter Q ?s2)"
            using False Inr Dir sub by (intro "2.IH"(6)) auto
          also have "\<dots> \<le> length (filter Q ?s1)"
            by (rule remove_if_empty_shrinks)
          also have "\<dots> \<le> length (filter Q s)"
            using False Inr Dir sub by (intro "2.IH"(5)) auto
          finally show ?thesis
            using False Inr Dir sub by (simp add: simp)
        qed
      next
        case BrokenLink
        with False Inr "2.IH"(7) show ?thesis by (simp add: simp)
      qed
    qed
  qed
qed

termination cleanup_entries
proof (relation "measures [\<lambda>(s, dir, cf, es). below s dir, \<lambda>(s, dir, cf, es). length es]", goal_cases)
  case (6 s dir categoryFolders entry entries n subEntries)
  then have "fs_lookup s (dir @ [entry]) \<noteq> None"
    by (auto simp: fs_stat_iff)
  then show ?case
    by (simp add: below_child)
next
  case (7 s dir categoryFolders entry entries n subEntries)
  have "below (remove_if_empty (cleanup_entries s (dir @ [entry]) categoryFolders subEntries) (dir @ [entry])) dir
        \<le> below (cleanup_entries s (dir @ [entry]) categoryFolders subEntries) dir"
    unfolding below_def by (rule remove_if_empty_shrinks)
  also have "\<dots> \<le> below s dir"
    unfolding below_def using 7 by (intro cleanup_entries_shrinks)
  finally show ?case
    by auto
qed simp_all

declare cleanup_entries.simps [simp del]

definition cleanupEmptyDirectories :: "fs \<Rightarrow> path \<Rightarrow> string list \<Rightarrow> error + fs" where
  "cleanupEmptyDirectories s dir categoryFolders =
     (case fs_readdir s dir of
        Inl err \<Rightarrow> Inl err
      | Inr entries \<Rightarrow> Inr (cleanup_entries s dir categoryFolders entries))"

section \<open>The move engine (src/organizer.js)\<close>

text \<open>
  The options of a run. \<open>ignore\<close> is the comma-separated pattern string (empty when the
  option is absent). \<open>config\<close> is \<open>None\<close> when no configuration file is named, else what
  \<open>loadConfig\<close> does with it: it throws, or it returns the custom categories merged over
  the defaults.
\<close>

record options =
  recursive :: bool
  dryRun :: bool
  interactive :: bool
  byDate :: bool
  ignore :: string
  config :: "(error + categories) option"

text \<open>
  What a run reads from its surroundings: the working directory (for \<open>path.resolve\<close>),
  the clock, and the answer of the confirmation prompt for a source and a destination.
\<close>

record env =
  cwd :: path
  clock :: date
  confirm :: "path \<Rightarrow> path \<Rightarrow> bool"

text \<open>The argument \<open>targetDir\<close> as JavaScript passes it: a string, or any other value.\<close>

datatype js_arg = NotAString | Str string

text \<open>The guard \<open>!targetDir || typeof targetDir !== 'string' || targetDir.trim() === ''\<close>.\<close>

definition invalid_targetDir :: "js_arg \<Rightarrow> bool" where
  "invalid_targetDir a = (case a of NotAString \<Rightarrow> True | Str str \<Rightarrow> str = [] \<or> trim str = [])"

text \<open>
  One call of \<open>fs.rename\<close>: the state of the disk when it was issued, its arguments and
  whether it succeeded. The list of the calls of a run, in the order of issue, is a
  history variable of the model (the program does not keep it): every run returns it
  next to the final state of the disk, also when the run throws.
\<close>

record rename_call =
  call_state :: fs
  call_src :: path
  call_dst :: path
  call_ok :: bool

type_synonym history = "rename_call list"

text \<open>The variables of the move loop: \<open>operations\<close>, \<open>processedCount\<close>, \<open>skippedCount\<close>.\<close>

record progress =
  ops :: "move_op list"
  processedCount :: nat
  skippedCount :: nat

definition no_progress :: progress where
  "no_progress = \<lparr>ops = [], processedCount = 0, skippedCount = 0\<rparr>"

text \<open>The destination directory of a file; \<open>None\<close> when \<open>path.join\<close> throws on an
  undefined month name.\<close>

definition targetSubDir_of :: "options \<Rightarrow> categories \<Rightarrow> path \<Rightarrow> file_entry \<Rightarrow> path option" where
  "targetSubDir_of opts cats targetDir file =
     (let ext = toLowerCase (extname (entry_name file)) in
      if byDate opts then
        (let fileDate = mtime (entry_stats file) in
         case getMonthName fileDate of
           None \<Rightarrow> None
         | Some mon \<Rightarrow> Some (targetDir @ [show_nat (year fileDate), mon]))
      else Some (path_join targetDir (getCategory (Some ext) cats)))"

text \<open>The \<open>for (const file of filesToProcess)\<close> loop. A failure of \<open>mkdir\<close> leaves the
  loop and the function; a failure of \<open>rename\<close> is caught inside the loop.\<close>

fun organize_files ::
  "env \<Rightarrow> options \<Rightarrow> categories \<Rightarrow> path \<Rightarrow> file_entry list \<Rightarrow> progress \<Rightarrow> history \<Rightarrow> fs
    \<Rightarrow> fs \<times> history \<times> (error + progress)"
where
  "organize_files e opts cats targetDir [] acc h s = (s, h, Inr acc)"
| "organize_files e opts cats targetDir (file # rest) acc h s =
     (case targetSubDir_of opts cats targetDir file of
        None \<Rightarrow> (s, h, Inl TypeError)
      | Some targetSubDir \<Rightarrow>
          let newFilePath = getUniqueFilePath s (targetSubDir @ [entry_name file]) in
          if dryRun opts then organize_files e opts cats targetDir rest acc h s
          else if interactive opts \<and> \<not> confirm e (entry_path file) newFilePath
          then organize_files e opts cats targetDir rest
                 (acc\<lparr>skippedCount := skippedCount acc + 1\<rparr>) h s
          else (case fs_mkdir_p s targetSubDir of
                  Inl err \<Rightarrow> (s, h, Inl err)
                | Inr s1 \<Rightarrow>
                    (case fs_rename s1 (entry_path file) newFilePath of
                       Inr s2 \<Rightarrow>
                         organize_files e opts cats targetDir rest
                           (acc\<lparr>ops := ops acc
                                   @ [\<lparr>original = entry_path file, movedTo = newFilePath\<rparr>],
                                 processedCount := processedCount acc + 1\<rparr>)
                           (h @ [\<lparr>call_state = s1, call_src = entry_path file,
                                   call_dst = newFilePath, call_ok = True\<rparr>])
                           s2
                     | Inl err \<Rightarrow>
                         organize_files e opts cats targetDir rest acc
                           (h @ [\<lparr>call_state = s1, call_src = entry_path file,
                                   call_dst = newFilePath, call_ok = False\<rparr>])
                           s1)))"

text \<open>How a run of \<open>organizeDirectory\<close> ends when it does not throw: with the early
  return on an empty file list, or with the summary; \<open>found\<close> is
  \<open>filesToProcess.length\<close>.\<close>

datatype organize_result = NothingToOrganize | Organized (found: nat) (progress_of: progress)

text \<open>The categories of a run: the defaults, or what \<open>loadConfig\<close> gives.\<close>

definition categories_of :: "options \<Rightarrow> error + categories" where
  "categories_of opts = (case config opts of None \<Rightarrow> Inr defaultCategories | Some r \<Rightarrow> r)"

text \<open>\<open>options.ignore ? options.ignore.split(',').map(p => p.trim()) : []\<close>.\<close>

definition ignorePatterns_of :: "options \<Rightarrow> string list" where
  "ignorePatterns_of opts =
     (if ignore opts \<noteq> [] then map trim (split_on CHR '','' (ignore opts)) else [])"

text \<open>The end of \<open>organizeDirectory\<close>, after the move loop: the log is saved when a move
  succeeded outside a dry run, then the pruner runs after a recursive run that moved
  something, then the summary is given.\<close>

definition finish_run ::
  "env \<Rightarrow> options \<Rightarrow> categories \<Rightarrow> path \<Rightarrow> nat \<Rightarrow> fs \<Rightarrow> progress \<Rightarrow> fs \<times> (error + organize_result)"
where
  "finish_run e opts cats targetDir n s1 acc =
     (case (if length (ops acc) > 0 \<and> \<not> dryRun opts
            then saveLog (clock e) s1 targetDir (ops acc)
            else Inr s1) of
        Inl err \<Rightarrow> (s1, Inl err)
      | Inr s2 \<Rightarrow>
          (case (if recursive opts \<and> \<not> dryRun opts \<and> length (ops acc) > 0
                 then cleanupEmptyDirectories s2 targetDir (map fst cats)
                 else Inr s2) of
             Inl err \<Rightarrow> (s2, Inl err)
           | Inr s3 \<Rightarrow> (s3, Inr (Organized n acc))))"

definition organizeDirectory ::
  "env \<Rightarrow> fs \<Rightarrow> js_arg \<Rightarrow> options \<Rightarrow> fs \<times> history \<times> (error + organize_result)"
where
  "organizeDirectory e s targetDirArg opts =
     (case targetDirArg of
        NotAString \<Rightarrow> (s, [], Inl InvalidTargetDir)
      | Str str \<Rightarrow>
          if invalid_targetDir (Str str) then (s, [], Inl InvalidTargetDir)
          else
            let targetDir = path_resolve (cwd e) str in
            if \<not> fs_access s targetDir then (s, [], Inl (DirectoryDoesNotExist targetDir))
            else (case fs_stat s targetDir of
                    Inl err \<Rightarrow> (s, [], Inl err)
                  | Inr (File i) \<Rightarrow> (s, [], Inl (PathIsNotADirectory targetDir))
                  | Inr BrokenLink \<Rightarrow> (s, [], Inl (PathIsNotADirectory targetDir))
                  | Inr Dir \<Rightarrow>
                      (case categories_of opts of
                         Inl err \<Rightarrow> (s, [], Inl err)
                       | Inr cats \<Rightarrow>
                           (case discover s targetDir (map fst cats) (ignorePatterns_of opts)
                                   (recursive opts) of
                              Inl err \<Rightarrow> (s, [], Inl err)
                            | Inr filesToProcess \<Rightarrow>
                                if length filesToProcess = 0 then (s, [], Inr NothingToOrganize)
                                else (case organize_files e opts cats targetDir filesToProcess
                                             no_progress [] s of
                                        (s1, h, Inl err) \<Rightarrow> (s1, h, Inl err)
                                      | (s1, h, Inr acc) \<Rightarrow>
                                          (case finish_run e opts cats targetDir
                                                  (length filesToProcess) s1 acc of
                                             (s3, r) \<Rightarrow> (s3, h, r)))))))"

section \<open>The undo engine (src/organizer.js)\<close>

record undo_progress =
  restoredCount :: nat
  errorCount :: nat

definition no_undo_progress :: undo_progress where
  "no_undo_progress = \<lparr>restoredCount = 0, errorCount = 0\<rparr>"

text \<open>The loop over the operations of the last batch; the \<open>try\<close> block holds the access
  check, the resolver and the rename.\<close>

fun undo_operations ::
  "fs \<Rightarrow> move_op list \<Rightarrow> undo_progress \<Rightarrow> history \<Rightarrow> fs \<times> history \<times> undo_progress"
where
  "undo_operations s [] acc h = (s, h, acc)"
| "undo_operations s (opn # rest) acc h =
     (if \<not> fs_access s (movedTo opn)
      then undo_operations s rest (acc\<lparr>errorCount := errorCount acc + 1\<rparr>) h
      else
        let restorePath = getUniqueFilePath s (original opn) in
        case fs_rename s (movedTo opn) restorePath of
          Inr s' \<Rightarrow>
            undo_operations s' rest (acc\<lparr>restoredCount := restoredCount acc + 1\<rparr>)
              (h @ [\<lparr>call_state = s, call_src = movedTo opn, call_dst = restorePath,
                      call_ok = True\<rparr>])
        | Inl err \<Rightarrow>
            undo_operations s rest (acc\<lparr>errorCount := errorCount acc + 1\<rparr>)
              (h @ [\<lparr>call_state = s, call_src = movedTo opn, call_dst = restorePath,
                      call_ok = False\<rparr>]))"

text \<open>The sweep over the default category folders after an undo.\<close>

fun sweep_categories :: "fs \<Rightarrow> path \<Rightarrow> string list \<Rightarrow> fs" where
  "sweep_categories s targetDir [] = s"
| "sweep_categories s targetDir (category # rest) =
     sweep_categories (remove_if_empty s (path_join targetDir category)) targetDir rest"

text \<open>How a run of \<open>undoOrganize\<close> ends when it does not throw: with one of the two early
  returns, or with the summary.\<close>

datatype undo_result = NoLogFound | NoOperations | Undone undo_progress

definition undoOrganize :: "env \<Rightarrow> fs \<Rightarrow> js_arg \<Rightarrow> fs \<times> history \<times> (error + undo_result)" where
  "undoOrganize e s targetDirArg =
     (case targetDirArg of
        NotAString \<Rightarrow> (s, [], Inl InvalidTargetDir)
      | Str str \<Rightarrow>
          if invalid_targetDir (Str str) then (s, [], Inl InvalidTargetDir)
          else
            let targetDir = path_resolve (cwd e) str in
            (case readLog s targetDir of
               None \<Rightarrow> (s, [], Inr NoLogFound)
             | Some lg \<Rightarrow>
                 if length lg = 0 then (s, [], Inr NoOperations)
                 else
                   let lastBatch = last lg;
                       remaining = butlast lg
                   in (case undo_operations s (operations lastBatch) no_undo_progress [] of
                         (s1, h, acc) \<Rightarrow>
                           (case updateLog (clock e) s1 targetDir remaining of
                              Inl err \<Rightarrow> (s1, h, Inl err)
                            | Inr s2 \<Rightarrow>
                                (sweep_categories s2 targetDir (map fst defaultCategories), h,
                                 Inr (Undone acc))))))"

section \<open>Example states\<close>


definition t0 :: date where
  "t0 = \<lparr>iso = ''2024-03-05T10:00:00.000Z'', year = 2024, month = 2\<rparr>"

definition t1 :: date where
  "t1 = \<lparr>iso = ''2024-04-01T08:00:00.000Z'', year = 2024, month = 3\<rparr>"

text \<open>An ordinary file and an immutable one, told apart by a number.\<close>

definition plain :: "nat \<Rightarrow> node" where
  "plain n = File \<lparr>content = Bytes n, mtime = t0, immutable = False\<rparr>"

definition stuck :: "nat \<Rightarrow> node" where
  "stuck n = File \<lparr>content = Bytes n, mtime = t0, immutable = True\<rparr>"

definition e0 :: env where
  "e0 = \<lparr>cwd = [], clock = t1, confirm = (\<lambda>a b. True)\<rparr>"

definition o0 :: options where
  "o0 = \<lparr>recursive = False, dryRun = False, interactive = False, byDate = False, ignore = [],
          config = None\<rparr>"

text \<open>A file holding a log.\<close>

definition logged :: "batch list \<Rightarrow> node" where
  "logged lg = File \<lparr>content = LogText lg, mtime = t0, immutable = False\<rparr>"

definition batch1 :: batch where
  "batch1 = \<lparr>timestamp = iso t0, operations = [\<lparr>original = [''r'', ''a.txt''], movedTo = [''r'', ''Documents'', ''a.txt'']\<rparr>]\<rparr>"

definition batch2 :: batch where
  "batch2 = \<lparr>timestamp = iso t1, operations = [\<lparr>original = [''r'', ''b.jpg''], movedTo = [''r'', ''Images'', ''b.jpg'']\<rparr>]\<rparr>"

definition d_logged :: fs where
  "d_logged = [([], Dir), ([''r''], Dir), ([''r'', ''.segre-log.json''], logged [batch1, batch2])]"

definition d_corrupt :: fs where
  "d_corrupt = [([], Dir), ([''r''], Dir), ([''r'', ''.segre-log.json''], plain 7), ([''r'', ''Documents''], Dir),
                ([''r'', ''Documents'', ''a.txt''], plain 1)]"

text \<open>A well-formed disk: every entry but the root lies in a directory.\<close>

definition wf_fs :: "fs \<Rightarrow> bool" where
  "wf_fs s = (\<forall>(p, n) \<in> set s. p \<noteq> [] \<longrightarrow> fs_lookup s (butlast p) = Some Dir)"

definition d1 :: fs where
  "d1 = [([], Dir), ([''r''], Dir), ([''r'', ''photo.jpg''], plain 1), ([''r'', ''doc.pdf''], plain 2),
         ([''r'', ''song.mp3''], plain 3)]"

section \<open>Notions used in the statements\<close>

text \<open>What discovery lets through, for a file found at \<open>dir @ rel\<close>: no component of \<open>rel\<close>
  is the log's name, no directory on the way is named like a category, and the first
  component is not a category name when \<open>at_root\<close> holds (the listing is the root's).\<close>

definition passes :: "string list \<Rightarrow> bool \<Rightarrow> string list \<Rightarrow> bool" where
  "passes categoryFolders at_root rel =
     (rel \<noteq> [] \<and> LOG_FILE_NAME \<notin> set rel \<and> set (butlast rel) \<inter> set categoryFolders = {}
      \<and> (at_root \<longrightarrow> hd rel \<notin> set categoryFolders))"

definition found_at :: "fs \<Rightarrow> path \<Rightarrow> string list \<Rightarrow> bool \<Rightarrow> file_entry \<Rightarrow> bool" where
  "found_at s dir categoryFolders at_root f =
     (\<exists>rel. entry_path f = dir @ rel \<and> entry_name f = last rel \<and> passes categoryFolders at_root rel
        \<and> fs_lookup s (entry_path f) = Some (File (entry_stats f)))"




text \<open>The move operation that a rename call stands for.\<close>

definition to_op :: "rename_call \<Rightarrow> move_op" where
  "to_op c = \<lparr>original = call_src c, movedTo = call_dst c\<rparr>"

text \<open>A history entry is faithful when its flag says what \<open>fs.rename\<close> does in the
  recorded state with the recorded arguments.\<close>

definition faithful :: "rename_call \<Rightarrow> bool" where
  "faithful c = (call_ok c = (\<not> isl (fs_rename (call_state c) (call_src c) (call_dst c))))"

text \<open>Two states of the disk with the same regular files (same paths, same contents and
  attributes); directories may differ.\<close>

definition same_files :: "fs \<Rightarrow> fs \<Rightarrow> bool" where
  "same_files s s' = (\<forall>p i. (fs_lookup s' p = Some (File i)) = (fs_lookup s p = Some (File i)))"



definition d_nested :: fs where
  "d_nested = [([], Dir), ([''r''], Dir), ([''r'', ''sub''], Dir), ([''r'', ''sub'', ''Others''], plain 1),
               ([''r'', ''Images''], plain 2), ([''r'', ''sub'', ''.segre-log.json''], plain 3),
               ([''r'', ''sub'', ''Audio''], Dir), ([''r'', ''sub'', ''Audio'', ''x.mp3''], plain 4)]"



text \<open>Example states with an immutable file, and the tree of a recursive run.\<close>

definition d_stuck :: fs where
  "d_stuck = [([], Dir), ([''r''], Dir), ([''r'', ''a.txt''], stuck 1), ([''r'', ''b.txt''], plain 2)]"

definition d_only_stuck :: fs where
  "d_only_stuck = [([], Dir), ([''r''], Dir), ([''r'', ''a.txt''], stuck 1),
                   ([''r'', ''.segre-log.json''], logged [batch2])]"

definition d_sub :: fs where
  "d_sub = [([], Dir), ([''r''], Dir), ([''r'', ''sub''], Dir), ([''r'', ''sub'', ''old.txt''], plain 1)]"

section \<open>The category resolver\<close>

lemma toLowerChar_idem: "toLowerChar (toLowerChar c) = toLowerChar c"
  by (simp add: toLowerChar_def)

lemma toLowerCase_idem: "toLowerCase (toLowerCase e) = toLowerCase e"
  by (simp add: toLowerCase_def toLowerChar_idem)

lemma toLowerCase_Nil_iff: "toLowerCase e = [] \<longleftrightarrow> e = []"
  by (simp add: toLowerCase_def)

lemma getCategory_loop_lower: "getCategory_loop (toLowerCase e) cats = getCategory_loop e cats"
  by (induction cats) (auto simp: toLowerCase_idem)

lemma getCategory_loop_no_match:
  "\<forall>(c, exts) \<in> set cats. toLowerCase e \<notin> set exts \<Longrightarrow> getCategory_loop e cats = ''Others''"
  by (induction cats) auto

lemma getCategory_loop_first_match:
  "\<forall>(c', exts') \<in> set pre. toLowerCase e \<notin> set exts' \<Longrightarrow> toLowerCase e \<in> set exts
    \<Longrightarrow> getCategory_loop e (pre @ (c, exts) # post) = c"
  by (induction pre) auto

text \<open>
  C4. \<open>getCategory\<close> is total: an absent or empty extension gives \<open>Others\<close>; an extension
  that no category lists (after lower-casing) gives \<open>Others\<close>; otherwise the result is the
  first category, in the order of the map, whose list holds the lower-cased extension.
  Lower-casing the argument first changes nothing, so \<open>.JPG\<close> and \<open>.jpg\<close> resolve alike.
\<close>

theorem getCategory_contract:
  "getCategory None cats = ''Others''
   \<and> getCategory (Some []) cats = ''Others''
   \<and> ((\<forall>(c', exts') \<in> set cats. toLowerCase e \<notin> set exts') \<longrightarrow> getCategory (Some e) cats = ''Others'')
   \<and> (e \<noteq> [] \<and> cats = pre @ (c, exts) # post
        \<and> (\<forall>(c', exts') \<in> set pre. toLowerCase e \<notin> set exts') \<and> toLowerCase e \<in> set exts
       \<longrightarrow> getCategory (Some e) cats = c)
   \<and> getCategory (Some (toLowerCase e)) cats = getCategory (Some e) cats
   \<and> getCategory (Some ''.JPG'') cats = getCategory (Some ''.jpg'') cats"
proof -
  have low: "getCategory (Some (toLowerCase x)) cats = getCategory (Some x) cats" for x
    by (simp add: getCategory_def toLowerCase_Nil_iff getCategory_loop_lower)
  have "toLowerCase ''.JPG'' = ''.jpg''"
    by (simp add: toLowerCase_def toLowerChar_def)
  with low[of "''.JPG''"] have jpg: "getCategory (Some ''.JPG'') cats = getCategory (Some ''.jpg'') cats"
    by simp
  show ?thesis
    using low jpg
    by (auto simp: getCategory_def getCategory_loop_no_match getCategory_loop_first_match)
qed

theorem getCategory_contract_witness:
  "getCategory None defaultCategories = ''Others''
   \<and> getCategory (Some ''.xyz'') defaultCategories = ''Others''
   \<and> getCategory (Some ''.JPG'') defaultCategories = ''Images''
   \<and> getCategory (Some ''.jpg'') defaultCategories = ''Images''"
proof -
  let ?pre = "take 4 defaultCategories"
  let ?post = "drop 5 defaultCategories"
  let ?exts = "snd (defaultCategories ! 4)"
  have split: "defaultCategories = ?pre @ (''Images'', ?exts) # ?post"
    by (simp add: defaultCategories_def)
  have low: "toLowerCase ''.JPG'' = ''.jpg''" "toLowerCase ''.xyz'' = ''.xyz''"
    by (simp_all add: toLowerCase_def toLowerChar_def)
  have pre: "\<forall>(c', exts') \<in> set ?pre. toLowerCase ''.JPG'' \<notin> set exts'"
    by (simp add: low defaultCategories_def)
  have hit: "toLowerCase ''.JPG'' \<in> set ?exts"
    by (simp add: low defaultCategories_def)
  have none: "\<forall>(c', exts') \<in> set defaultCategories. toLowerCase ''.xyz'' \<notin> set exts'"
    by (simp add: low defaultCategories_def)
  note jpg = getCategory_contract[of defaultCategories "''.JPG''" ?pre "''Images''" ?exts ?post]
  note xyz = getCategory_contract[of defaultCategories "''.xyz''" "[]" "[]" "[]" "[]"]
  from jpg split pre hit have "getCategory (Some ''.JPG'') defaultCategories = ''Images''"
    by blast
  moreover from jpg this have "getCategory (Some ''.jpg'') defaultCategories = ''Images''"
    by metis
  moreover from xyz none have "getCategory (Some ''.xyz'') defaultCategories = ''Others''"
    by blast
  moreover from xyz have "getCategory None defaultCategories = ''Others''"
    by blast
  ultimately show ?thesis by blast
qed

section \<open>The unique path resolver\<close>






section \<open>Lookups after the operations of the file system\<close>

lemma lookup_remove_entry:
  "fs_lookup (remove_entry p s) q = (if q = p then None else fs_lookup s q)"
  unfolding fs_lookup_def remove_entry_def by (induction s) auto

lemma lookup_append:
  "fs_lookup (s @ [(p, n)]) q =
     (case fs_lookup s q of Some m \<Rightarrow> Some m | None \<Rightarrow> if q = p then Some n else None)"
  unfolding fs_lookup_def by (induction s) auto

lemma lookup_map_replace:
  "fs_lookup (map (\<lambda>(q, n). if q = p then (q, m) else (q, n)) s) x =
     (if x = p then map_option (\<lambda>n. m) (fs_lookup s x) else fs_lookup s x)"
  unfolding fs_lookup_def by (induction s) auto

lemma lookup_writeFile:
  assumes "fs_writeFile now s p c = Inr s'"
  shows "fs_lookup s' q =
           (if q = p then Some (File ((case fs_lookup s p of
                                          Some (File i) \<Rightarrow> i
                                        | _ \<Rightarrow> \<lparr>content = c, mtime = now, immutable = False\<rparr>)
                                       \<lparr>content := c, mtime := now\<rparr>))
            else fs_lookup s q)"
  using assms
  by (auto simp: fs_writeFile_def lookup_append lookup_map_replace
           split: if_splits option.splits node.splits)

lemma lookup_unlink:
  "fs_unlink s p = Inr s' \<Longrightarrow> fs_lookup s' q = (if q = p then None else fs_lookup s q)"
  by (auto simp: fs_unlink_def lookup_remove_entry split: option.splits node.splits if_splits)

lemma readFile_writeFile:
  "fs_writeFile now s p c = Inr s' \<Longrightarrow> fs_readFile s' p = Inr c"
  by (simp add: fs_readFile_def lookup_writeFile)

section \<open>The operation log\<close>

text \<open>
  C9. When \<open>updateLog\<close> succeeds with a non-empty log, the log file holds exactly that
  log; when it succeeds with the empty log, the log file is gone; in no case does it
  leave a log file that holds the empty array.
\<close>

theorem updateLog_persists:
  "(lg \<noteq> [] \<and> updateLog now s d lg = Inr s'
      \<longrightarrow> fs_readFile s' (d @ [LOG_FILE_NAME]) = Inr (LogText lg) \<and> readLog s' d = Some lg)
   \<and> (lg = [] \<and> updateLog now s d lg = Inr s'
      \<longrightarrow> fs_lookup s' (d @ [LOG_FILE_NAME]) = None \<and> \<not> fs_access s' (d @ [LOG_FILE_NAME]))
   \<and> (updateLog now s d lg = Inr s' \<longrightarrow> fs_readFile s' (d @ [LOG_FILE_NAME]) \<noteq> Inr (LogText []))"
proof -
  have written: "fs_readFile s' (d @ [LOG_FILE_NAME]) = Inr (LogText lg)"
    if "lg \<noteq> []" "updateLog now s d lg = Inr s'"
    using that by (simp add: updateLog_def Let_def readFile_writeFile)
  have removed: "fs_lookup s' (d @ [LOG_FILE_NAME]) = None"
    if "lg = []" "updateLog now s d lg = Inr s'"
    using that by (simp add: updateLog_def Let_def lookup_unlink)
  have "fs_readFile s' (d @ [LOG_FILE_NAME]) \<noteq> Inr (LogText [])" if "updateLog now s d lg = Inr s'"
  proof (cases "lg = []")
    case True
    with that removed show ?thesis by (simp add: fs_readFile_def)
  next
    case False
    with that written show ?thesis by simp
  qed
  with written removed show ?thesis
    by (auto simp: readLog_def JSON_parse_def fs_access_def)
qed

theorem updateLog_persists_witness:
  "updateLog t1 d_logged [''r''] [batch1] \<noteq> Inl (FsError ENOENT)
   \<and> readLog (projr (updateLog t1 d_logged [''r''] [batch1])) [''r''] = Some [batch1]
   \<and> fs_lookup (projr (updateLog t1 d_logged [''r''] [])) [''r'', ''.segre-log.json''] = None
   \<and> \<not> fs_access (projr (updateLog t1 d_logged [''r''] [])) [''r'', ''.segre-log.json'']
   \<and> fs_readFile (projr (updateLog t1 d_logged [''r''] [])) [''r'', ''.segre-log.json''] \<noteq> Inr (LogText [])"
proof -
  obtain s1 where s1: "updateLog t1 d_logged [''r''] [batch1] = Inr s1"
    by (simp add: updateLog_def Let_def d_logged_def fs_writeFile_def fs_lookup_def logged_def LOG_FILE_NAME_def)
  obtain s2 where s2: "updateLog t1 d_logged [''r''] [] = Inr s2"
    by (simp add: updateLog_def Let_def d_logged_def fs_unlink_def fs_lookup_def logged_def LOG_FILE_NAME_def)
  have b: "[batch1] \<noteq> []" by simp
  from updateLog_persists[of "[batch1]" t1 d_logged "[''r'']" s1] s1 b
  have "readLog s1 [''r''] = Some [batch1]" by blast
  moreover from updateLog_persists[of "[]" t1 d_logged "[''r'']" s2] s2
  have "fs_lookup s2 ([''r''] @ [LOG_FILE_NAME]) = None"
    and "\<not> fs_access s2 ([''r''] @ [LOG_FILE_NAME])"
    and "fs_readFile s2 ([''r''] @ [LOG_FILE_NAME]) \<noteq> Inr (LogText [])" by blast+
  ultimately show ?thesis
    using s1 s2 by (simp add: LOG_FILE_NAME_def)
qed

text \<open>
  C10. \<open>readLog\<close> returns \<open>null\<close> (here \<open>None\<close>) when the log file does not exist and also
  when it exists with a content that \<open>JSON.parse\<close> rejects. An undo on a directory with
  such a log file ends with the report that no log was found: it does not throw, renames
  nothing and leaves the disk, the corrupt file included, as it was.
\<close>

theorem readLog_corrupt_is_absent:
  "(fs_lookup s (d @ [LOG_FILE_NAME]) = None \<longrightarrow> readLog s d = None)
   \<and> (fs_lookup s (d @ [LOG_FILE_NAME]) = Some (File i) \<and> JSON_parse (content i) = None
        \<longrightarrow> readLog s d = None)
   \<and> (\<not> invalid_targetDir (Str str)
        \<and> fs_lookup s (path_resolve (cwd e) str @ [LOG_FILE_NAME]) = Some (File i)
        \<and> JSON_parse (content i) = None
        \<longrightarrow> undoOrganize e s (Str str) = (s, [], Inr NoLogFound))"
  by (auto simp: readLog_def fs_readFile_def undoOrganize_def Let_def)

theorem readLog_corrupt_is_absent_witness:
  "readLog d_corrupt [''r''] = None
   \<and> readLog d_corrupt [''elsewhere''] = None
   \<and> undoOrganize e0 d_corrupt (Str ''/r'') = (d_corrupt, [], Inr NoLogFound)"
proof -
  let ?i = "\<lparr>content = Bytes 7, mtime = t0, immutable = False\<rparr>"
  have res: "path_resolve (cwd e0) ''/r'' = [''r'']"
    by (simp add: path_resolve_def e0_def startsWith_def normalize_step_def)
  have look: "fs_lookup d_corrupt ([''r''] @ [LOG_FILE_NAME]) = Some (File ?i)"
    by (simp add: d_corrupt_def fs_lookup_def LOG_FILE_NAME_def plain_def)
  have absent: "fs_lookup d_corrupt ([''elsewhere''] @ [LOG_FILE_NAME]) = None"
    by (simp add: d_corrupt_def fs_lookup_def LOG_FILE_NAME_def)
  have bad: "JSON_parse (content ?i) = None"
    by (simp add: JSON_parse_def)
  have valid: "\<not> invalid_targetDir (Str ''/r'')"
    by (simp add: invalid_targetDir_def trim_def isSpace_def)
  from readLog_corrupt_is_absent[of d_corrupt "[''r'']" ?i "''/r''" e0] look bad valid res
  have "readLog d_corrupt [''r''] = None"
    and "undoOrganize e0 d_corrupt (Str ''/r'') = (d_corrupt, [], Inr NoLogFound)"
    by simp_all
  moreover from readLog_corrupt_is_absent[of d_corrupt "[''elsewhere'']" ?i "''/r''" e0] absent
  have "readLog d_corrupt [''elsewhere''] = None"
    by blast
  ultimately show ?thesis by blast
qed

section \<open>Precondition errors\<close>

text \<open>
  The claim C5 as stated fails for undo: \<open>undoOrganize\<close> checks only that the argument is
  a non-blank string. On a directory that does not exist, and on a path that is a regular
  file, it throws nothing and reports that no log was found.
\<close>

theorem undo_missing_dir_counterexample:
  "fs_lookup d1 (path_resolve (cwd e0) ''/nope'') = None
   \<and> \<not> fs_access d1 (path_resolve (cwd e0) ''/nope'')
   \<and> undoOrganize e0 d1 (Str ''/nope'') = (d1, [], Inr NoLogFound)
   \<and> fs_lookup d1 (path_resolve (cwd e0) ''/r/doc.pdf'') = Some (plain 2)
   \<and> undoOrganize e0 d1 (Str ''/r/doc.pdf'') = (d1, [], Inr NoLogFound)"
  by code_simp

lemma wf_child_of_dir:
  "wf_fs s \<Longrightarrow> fs_lookup s (d @ [c]) \<noteq> None \<Longrightarrow> fs_lookup s d = Some Dir"
proof -
  assume wf: "wf_fs s" and "fs_lookup s (d @ [c]) \<noteq> None"
  then obtain n where "(d @ [c], n) \<in> set s"
    by (auto simp: fs_lookup_def dest: map_of_SomeD)
  with wf show ?thesis
    unfolding wf_fs_def by fastforce
qed

text \<open>
  C5, amended. A blank or non-string argument makes \<open>organizeDirectory\<close> and
  \<open>undoOrganize\<close> throw at once, with the disk untouched and no rename issued. For
  \<open>organizeDirectory\<close> the same holds of a directory that does not exist and of a path
  that is not a directory. \<open>undoOrganize\<close> does not look at the directory: when the target
  is not an existing directory (on a well-formed disk) it throws nothing, reports that no
  log was found, and leaves the disk untouched.
\<close>

theorem precondition_errors:
  "(invalid_targetDir a
      \<longrightarrow> organizeDirectory e s a opts = (s, [], Inl InvalidTargetDir)
        \<and> undoOrganize e s a = (s, [], Inl InvalidTargetDir))
   \<and> (\<not> invalid_targetDir (Str str) \<and> \<not> fs_access s (path_resolve (cwd e) str)
      \<longrightarrow> organizeDirectory e s (Str str) opts
            = (s, [], Inl (DirectoryDoesNotExist (path_resolve (cwd e) str))))
   \<and> (\<not> invalid_targetDir (Str str) \<and> fs_lookup s (path_resolve (cwd e) str) = Some (File i)
      \<longrightarrow> organizeDirectory e s (Str str) opts
            = (s, [], Inl (PathIsNotADirectory (path_resolve (cwd e) str))))
   \<and> (wf_fs s \<and> \<not> invalid_targetDir (Str str) \<and> fs_lookup s (path_resolve (cwd e) str) \<noteq> Some Dir
      \<longrightarrow> undoOrganize e s (Str str) = (s, [], Inr NoLogFound))"
proof (intro conjI impI)
  assume "invalid_targetDir a"
  then show "organizeDirectory e s a opts = (s, [], Inl InvalidTargetDir)"
    by (cases a) (simp_all add: organizeDirectory_def)
next
  assume "invalid_targetDir a"
  then show "undoOrganize e s a = (s, [], Inl InvalidTargetDir)"
    by (cases a) (simp_all add: undoOrganize_def)
next
  assume "\<not> invalid_targetDir (Str str) \<and> \<not> fs_access s (path_resolve (cwd e) str)"
  then show "organizeDirectory e s (Str str) opts
            = (s, [], Inl (DirectoryDoesNotExist (path_resolve (cwd e) str)))"
    by (simp add: organizeDirectory_def Let_def)
next
  assume "\<not> invalid_targetDir (Str str) \<and> fs_lookup s (path_resolve (cwd e) str) = Some (File i)"
  then show "organizeDirectory e s (Str str) opts
            = (s, [], Inl (PathIsNotADirectory (path_resolve (cwd e) str)))"
    by (simp add: organizeDirectory_def Let_def fs_access_def fs_stat_def)
next
  assume a: "wf_fs s \<and> \<not> invalid_targetDir (Str str) \<and> fs_lookup s (path_resolve (cwd e) str) \<noteq> Some Dir"
  then have "fs_lookup s (path_resolve (cwd e) str @ [LOG_FILE_NAME]) = None"
    using wf_child_of_dir[of s "path_resolve (cwd e) str" LOG_FILE_NAME] by blast
  then have "readLog s (path_resolve (cwd e) str) = None"
    by (simp add: readLog_def fs_readFile_def)
  with a show "undoOrganize e s (Str str) = (s, [], Inr NoLogFound)"
    by (simp add: undoOrganize_def Let_def)
qed

theorem precondition_errors_witness:
  "organizeDirectory e0 d1 (Str ''   '') o0 = (d1, [], Inl InvalidTargetDir)
   \<and> undoOrganize e0 d1 NotAString = (d1, [], Inl InvalidTargetDir)
   \<and> organizeDirectory e0 d1 (Str ''/nope'') o0 = (d1, [], Inl (DirectoryDoesNotExist [''nope'']))
   \<and> organizeDirectory e0 d1 (Str ''/r/doc.pdf'') o0 = (d1, [], Inl (PathIsNotADirectory [''r'', ''doc.pdf'']))
   \<and> undoOrganize e0 d1 (Str ''/nope'') = (d1, [], Inr NoLogFound)
   \<and> undoOrganize e0 d1 (Str ''/r/doc.pdf'') = (d1, [], Inr NoLogFound)"
proof -
  let ?i = "\<lparr>content = Bytes 2, mtime = t0, immutable = False\<rparr>"
  have blank: "invalid_targetDir (Str ''   '')" "invalid_targetDir NotAString"
    by (simp_all add: invalid_targetDir_def trim_def isSpace_def)
  have valid: "\<not> invalid_targetDir (Str ''/nope'')" "\<not> invalid_targetDir (Str ''/r/doc.pdf'')"
    by (simp_all add: invalid_targetDir_def trim_def isSpace_def)
  have res: "path_resolve (cwd e0) ''/nope'' = [''nope'']"
            "path_resolve (cwd e0) ''/r/doc.pdf'' = [''r'', ''doc.pdf'']"
    by (simp_all add: path_resolve_def e0_def startsWith_def normalize_step_def)
  have missing: "\<not> fs_access d1 [''nope'']" "fs_lookup d1 [''nope''] \<noteq> Some Dir"
    by (simp_all add: fs_access_def fs_lookup_def d1_def)
  have isfile: "fs_lookup d1 [''r'', ''doc.pdf''] = Some (File ?i)" "fs_lookup d1 [''r'', ''doc.pdf''] \<noteq> Some Dir"
    by (simp_all add: fs_lookup_def d1_def plain_def)
  have wf: "wf_fs d1"
    by (simp add: wf_fs_def d1_def fs_lookup_def)
  note a = precondition_errors[of "Str ''   ''" e0 d1 o0 "''/nope''" ?i]
  note b = precondition_errors[of NotAString e0 d1 o0 "''/r/doc.pdf''" ?i]
  from a blank have "organizeDirectory e0 d1 (Str ''   '') o0 = (d1, [], Inl InvalidTargetDir)"
    by blast
  moreover from b blank have "undoOrganize e0 d1 NotAString = (d1, [], Inl InvalidTargetDir)"
    by blast
  moreover from a valid res missing
  have "organizeDirectory e0 d1 (Str ''/nope'') o0 = (d1, [], Inl (DirectoryDoesNotExist [''nope'']))"
    by simp
  moreover from b valid res isfile
  have "organizeDirectory e0 d1 (Str ''/r/doc.pdf'') o0 = (d1, [], Inl (PathIsNotADirectory [''r'', ''doc.pdf'']))"
    by simp
  moreover from a valid res missing wf
  have "undoOrganize e0 d1 (Str ''/nope'') = (d1, [], Inr NoLogFound)"
    by simp
  moreover from b valid res isfile wf
  have "undoOrganize e0 d1 (Str ''/r/doc.pdf'') = (d1, [], Inr NoLogFound)"
    by simp
  ultimately show ?thesis by blast
qed

section \<open>File discovery\<close>

lemma found_at_here:
  "entry \<noteq> LOG_FILE_NAME \<Longrightarrow> (at_root \<longrightarrow> entry \<notin> set cf) \<Longrightarrow> fs_stat s (dir @ [entry]) = Inr (File i)
    \<Longrightarrow> found_at s dir cf at_root \<lparr>entry_name = entry, entry_path = dir @ [entry], entry_stats = i\<rparr>"
  unfolding found_at_def passes_def
  by (intro exI[of _ "[entry]"]) (auto simp: fs_stat_iff)

lemma found_at_deeper:
  assumes "found_at s (dir @ [entry]) cf deeper f" and "entry \<noteq> LOG_FILE_NAME" and "entry \<notin> set cf"
  shows "found_at s dir cf at_root f"
proof -
  from assms(1) obtain rel where rel: "entry_path f = (dir @ [entry]) @ rel" "entry_name f = last rel"
      "passes cf deeper rel" "fs_lookup s (entry_path f) = Some (File (entry_stats f))"
    unfolding found_at_def by blast
  from rel(3) have ne: "rel \<noteq> []" by (simp add: passes_def)
  then have "butlast (entry # rel) = entry # butlast rel" by simp
  with rel(3) assms(2,3) ne have "passes cf at_root (entry # rel)"
    by (auto simp: passes_def)
  with rel ne show ?thesis
    unfolding found_at_def by (intro exI[of _ "entry # rel"]) simp
qed

lemma collect_entries_found:
  "collect_entries s dir baseDir cf ip rec es = Inr files \<Longrightarrow> f \<in> set files
    \<Longrightarrow> found_at s dir cf (dir = baseDir) f"
proof (induction s dir baseDir cf ip rec es arbitrary: files rule: collect_entries.induct)
  case (1 s dir baseDir categoryFolders ignorePatterns rec)
  then show ?case by (simp add: collect_entries.simps)
next
  case (2 s dir baseDir cf ip rec entry entries)
  let ?rest = "collect_entries s dir baseDir cf ip rec entries"
  note eq = "2.prems"(1)[unfolded collect_entries.simps(2)[of s dir baseDir cf ip rec entry entries] Let_def]
  note inf = "2.prems"(2)
  show ?case
  proof (cases "entry = LOG_FILE_NAME")
    case True
    with eq have "?rest = Inr files" by simp
    from "2.IH"(1)[OF refl True this inf] show ?thesis .
  next
    case nolog: False
    show ?thesis
    proof (cases "shouldIgnore (dir @ [entry]) ip")
      case True
      with nolog eq have "?rest = Inr files" by simp
      from "2.IH"(2)[OF refl nolog True this inf] show ?thesis .
    next
      case noign: False
      show ?thesis
      proof (cases "dir = baseDir \<and> entry \<in> set cf")
        case True
        with nolog noign eq have "?rest = Inr files" by simp
        from "2.IH"(3)[OF refl nolog noign True this inf] show ?thesis .
      next
        case nocat: False
        then have cond: "(dir = baseDir \<and> entry \<in> set cf) = False"
          by blast
        from eq nolog noign have eq':
          "(case fs_stat s (dir @ [entry]) of
              Inl err \<Rightarrow> Inl err
            | Inr (File i) \<Rightarrow>
                (case ?rest of
                   Inl err \<Rightarrow> Inl err
                 | Inr files \<Rightarrow>
                     Inr (\<lparr>entry_name = entry, entry_path = dir @ [entry], entry_stats = i\<rparr> # files))
            | Inr Dir \<Rightarrow>
                if rec then
                  (if entry \<in> set cf then ?rest
                   else (case fs_readdir s (dir @ [entry]) of
                           Inl err \<Rightarrow> Inl err
                         | Inr subEntries \<Rightarrow>
                             (case collect_entries s (dir @ [entry]) baseDir cf ip rec subEntries of
                                Inl err \<Rightarrow> Inl err
                              | Inr subFiles \<Rightarrow>
                                  (case ?rest of
                                     Inl err \<Rightarrow> Inl err
                                   | Inr files \<Rightarrow> Inr (subFiles @ files)))))
                else ?rest
            | Inr BrokenLink \<Rightarrow> ?rest) = Inr files"
          by (simp add: cond)
        show ?thesis
        proof (cases "fs_stat s (dir @ [entry])")
          case (Inl err)
          with eq' show ?thesis by simp
        next
          case (Inr n)
          show ?thesis
          proof (cases n)
            case (File i)
            with Inr eq' obtain found where
              found: "?rest = Inr found"
              and files: "files = \<lparr>entry_name = entry, entry_path = dir @ [entry], entry_stats = i\<rparr> # found"
              by (auto split: sum.splits)
            show ?thesis
            proof (cases "f \<in> set found")
              case True
              from "2.IH"(4)[OF refl nolog noign nocat Inr File found True] show ?thesis .
            next
              case False
              with files inf
              have "f = \<lparr>entry_name = entry, entry_path = dir @ [entry], entry_stats = i\<rparr>"
                by simp
              moreover from nocat have "dir = baseDir \<longrightarrow> entry \<notin> set cf"
                by blast
              ultimately show ?thesis
                using found_at_here[of entry "dir = baseDir" cf s dir i] nolog Inr File by simp
            qed
          next
            case Dir
            show ?thesis
            proof (cases rec)
              case norec: False
              with Inr Dir eq' have "?rest = Inr files" by simp
              from "2.IH"(8)[OF refl nolog noign nocat Inr Dir norec this inf] show ?thesis .
            next
              case isrec: True
              show ?thesis
              proof (cases "entry \<in> set cf")
                case True
                with Inr Dir isrec eq' have "?rest = Inr files" by simp
                from "2.IH"(5)[OF refl nolog noign nocat Inr Dir isrec True this inf] show ?thesis .
              next
                case False
                with Inr Dir isrec eq' obtain subEntries subFiles found where
                  sub: "fs_readdir s (dir @ [entry]) = Inr subEntries"
                  and subFiles: "collect_entries s (dir @ [entry]) baseDir cf ip rec subEntries = Inr subFiles"
                  and found: "?rest = Inr found"
                  and files: "files = subFiles @ found"
                  by (auto split: sum.splits)
                show ?thesis
                proof (cases "f \<in> set subFiles")
                  case inSub: True
                  from "2.IH"(6)[OF refl nolog noign nocat Inr Dir isrec False sub subFiles inSub]
                  have "found_at s (dir @ [entry]) cf (dir @ [entry] = baseDir) f" .
                  from found_at_deeper[OF this nolog False] show ?thesis .
                next
                  case notSub: False
                  with files inf have "f \<in> set found" by simp
                  from "2.IH"(7)[OF refl nolog noign nocat Inr Dir isrec False sub subFiles found this]
                  show ?thesis .
                qed
              qed
            qed
          next
            case BrokenLink
            with Inr show ?thesis by (simp add: fs_stat_iff)
          qed
        qed
      qed
    qed
  qed
qed

lemma scan_entries_found:
  "scan_entries s dir cf ip es = Inr files \<Longrightarrow> f \<in> set files
    \<Longrightarrow> found_at s dir cf True f \<and> length (entry_path f) = Suc (length dir)"
proof (induction es arbitrary: files)
  case Nil
  then show ?case by simp
next
  case (Cons entry entries)
  let ?rest = "scan_entries s dir cf ip entries"
  show ?case
  proof (cases "entry = LOG_FILE_NAME \<or> shouldIgnore (dir @ [entry]) ip \<or> entry \<in> set cf")
    case True
    with Cons.prems(1) have "?rest = Inr files"
      by (auto simp: Let_def split: if_splits)
    with Cons.IH Cons.prems(2) show ?thesis by blast
  next
    case False
    show ?thesis
    proof (cases "fs_stat s (dir @ [entry])")
      case (Inl err)
      with False Cons.prems(1) show ?thesis by (simp add: Let_def)
    next
      case (Inr n)
      show ?thesis
      proof (cases n)
        case Dir
        with False Inr Cons.prems(1) have "?rest = Inr files"
          by (simp add: Let_def)
        with Cons.IH Cons.prems(2) show ?thesis by blast
      next
        case (File i)
        with False Inr Cons.prems(1) obtain found where
          found: "?rest = Inr found"
          and files: "files = \<lparr>entry_name = entry, entry_path = dir @ [entry], entry_stats = i\<rparr> # found"
          by (auto simp: Let_def split: sum.splits)
        show ?thesis
        proof (cases "f \<in> set found")
          case True
          with Cons.IH found show ?thesis by blast
        next
          case notfound: False
          with files Cons.prems(2)
          have "f = \<lparr>entry_name = entry, entry_path = dir @ [entry], entry_stats = i\<rparr>"
            by simp
          then show ?thesis
            using found_at_here[of entry True cf s dir i] False Inr File by simp
        qed
      next
        case BrokenLink
        with Inr show ?thesis by (simp add: fs_stat_iff)
      qed
    qed
  qed
qed

lemma discover_found:
  assumes "discover s targetDir cf ip rec = Inr files" and "f \<in> set files"
  shows "found_at s targetDir cf True f \<and> (\<not> rec \<longrightarrow> length (entry_path f) = Suc (length targetDir))"
proof (cases rec)
  case True
  with assms(1) obtain es where "collect_entries s targetDir targetDir cf ip rec es = Inr files"
    by (auto simp: discover_def collectFilesRecursively_def split: sum.splits)
  from collect_entries_found[OF this assms(2)] True show ?thesis
    by simp
next
  case False
  with assms(1) obtain es where "scan_entries s targetDir cf ip es = Inr files"
    by (auto simp: discover_def split: sum.splits)
  from scan_entries_found[OF this assms(2)] False show ?thesis
    by simp
qed

section \<open>The move loop\<close>






lemma mkdirs_same_files: "mkdirs s done cs = Inr s' \<Longrightarrow> same_files s s'"
proof (induction cs arbitrary: s "done")
  case Nil
  then show ?case by (simp add: same_files_def)
next
  case (Cons c cs)
  show ?case
  proof (cases "fs_lookup s (done @ [c])")
    case None
    with Cons.prems have "mkdirs (s @ [(done @ [c], Dir)]) (done @ [c]) cs = Inr s'"
      by simp
    from Cons.IH[OF this] have "same_files (s @ [(done @ [c], Dir)]) s'" .
    moreover have "same_files s (s @ [(done @ [c], Dir)])"
      using None by (auto simp: same_files_def lookup_append split: option.splits)
    ultimately show ?thesis
      by (simp add: same_files_def)
  next
    case (Some n)
    with Cons.prems Cons.IH show ?thesis
      by (cases n) auto
  qed
qed

lemma same_files_refl: "same_files s s"
  by (simp add: same_files_def)

lemma same_files_trans: "same_files s s1 \<Longrightarrow> same_files s1 s2 \<Longrightarrow> same_files s s2"
  by (simp add: same_files_def)

text \<open>
  An invariant rule for the move loop: a property of the loop variables, the history and
  the disk that holds at the start and survives a declined file, a successful move and a
  failed move, holds when the loop ends, however it ends.
\<close>

lemma organize_files_invariant:
  assumes run: "organize_files e opts cats t files acc h s = (s', h', r)"
    and init: "I acc h s"
    and within: "set files \<subseteq> F"
    and declined: "\<And>a hh ss. \<not> dryRun opts \<Longrightarrow> I a hh ss
        \<Longrightarrow> I (a\<lparr>skippedCount := skippedCount a + 1\<rparr>) hh ss"
    and moved: "\<And>f sub a hh s0 s1 s2. f \<in> F \<Longrightarrow> I a hh s0 \<Longrightarrow> \<not> dryRun opts
        \<Longrightarrow> targetSubDir_of opts cats t f = Some sub \<Longrightarrow> fs_mkdir_p s0 sub = Inr s1
        \<Longrightarrow> fs_rename s1 (entry_path f) (getUniqueFilePath s0 (sub @ [entry_name f])) = Inr s2
        \<Longrightarrow> I (a\<lparr>ops := ops a @ [\<lparr>original = entry_path f,
                                    movedTo = getUniqueFilePath s0 (sub @ [entry_name f])\<rparr>],
                  processedCount := processedCount a + 1\<rparr>)
              (hh @ [\<lparr>call_state = s1, call_src = entry_path f,
                       call_dst = getUniqueFilePath s0 (sub @ [entry_name f]), call_ok = True\<rparr>])
              s2"
    and failed: "\<And>f sub a hh s0 s1 err. f \<in> F \<Longrightarrow> I a hh s0 \<Longrightarrow> \<not> dryRun opts
        \<Longrightarrow> targetSubDir_of opts cats t f = Some sub \<Longrightarrow> fs_mkdir_p s0 sub = Inr s1
        \<Longrightarrow> fs_rename s1 (entry_path f) (getUniqueFilePath s0 (sub @ [entry_name f])) = Inl err
        \<Longrightarrow> I a
              (hh @ [\<lparr>call_state = s1, call_src = entry_path f,
                       call_dst = getUniqueFilePath s0 (sub @ [entry_name f]), call_ok = False\<rparr>])
              s1"
  shows "\<exists>a. I a h' s' \<and> (r = Inr a \<or> (\<exists>err. r = Inl err))"
  using run init within
proof (induction files arbitrary: acc h s)
  case Nil
  then show ?case by auto
next
  case (Cons fl rest)
  from Cons.prems(3) have inF: "fl \<in> F" and restF: "set rest \<subseteq> F"
    by simp_all
  show ?case
  proof (cases "targetSubDir_of opts cats t fl")
    case None
    with Cons.prems show ?thesis by auto
  next
    case (Some sub)
    let ?new = "getUniqueFilePath s (sub @ [entry_name fl])"
    show ?thesis
    proof (cases "dryRun opts")
      case True
      with Some Cons.prems(1) have "organize_files e opts cats t rest acc h s = (s', h', r)"
        by (simp add: Let_def)
      from Cons.IH[OF this Cons.prems(2) restF] show ?thesis .
    next
      case wet: False
      show ?thesis
      proof (cases "interactive opts \<and> \<not> confirm e (entry_path fl) ?new")
        case True
        with Some wet Cons.prems(1)
        have "organize_files e opts cats t rest (acc\<lparr>skippedCount := skippedCount acc + 1\<rparr>) h s
                = (s', h', r)"
          by (simp add: Let_def)
        from Cons.IH[OF this declined[OF wet Cons.prems(2)] restF] show ?thesis .
      next
        case go: False
        then have go': "(interactive opts \<and> \<not> confirm e (entry_path fl) ?new) = False"
          by blast
        show ?thesis
        proof (cases "fs_mkdir_p s sub")
          case (Inl err)
          from Cons.prems(1) have "s' = s \<and> h' = h \<and> r = Inl err"
            by (simp add: Let_def Some wet go' Inl)
          with Cons.prems(2) show ?thesis
            by (intro exI[of _ acc]) simp
        next
          case (Inr s1)
          show ?thesis
          proof (cases "fs_rename s1 (entry_path fl) ?new")
            case no: (Inl err)
            let ?h = "h @ [\<lparr>call_state = s1, call_src = entry_path fl, call_dst = ?new,
                              call_ok = False\<rparr>]"
            from Cons.prems(1)
            have "organize_files e opts cats t rest acc ?h s1 = (s', h', r)"
              by (simp add: Let_def Some wet go' Inr no)
            from Cons.IH[OF this failed[OF inF Cons.prems(2) wet Some Inr no] restF]
            show ?thesis .
          next
            case yes: (Inr s2)
            let ?h = "h @ [\<lparr>call_state = s1, call_src = entry_path fl, call_dst = ?new,
                              call_ok = True\<rparr>]"
            let ?acc = "acc\<lparr>ops := ops acc @ [\<lparr>original = entry_path fl, movedTo = ?new\<rparr>],
                             processedCount := processedCount acc + 1\<rparr>"
            from Cons.prems(1)
            have "organize_files e opts cats t rest ?acc ?h s2 = (s', h', r)"
              by (simp add: Let_def Some wet go' Inr yes)
            from Cons.IH[OF this moved[OF inF Cons.prems(2) wet Some Inr yes] restF]
            show ?thesis .
          qed
        qed
      qed
    qed
  qed
qed

lemma organize_files_dry:
  "dryRun opts \<Longrightarrow> organize_files e opts cats t files acc h s = (s', h', r)
    \<Longrightarrow> s' = s \<and> h' = h \<and> (r = Inr acc \<or> (\<exists>err. r = Inl err))"
proof (induction files)
  case Nil
  then show ?case by auto
next
  case (Cons fl rest)
  then show ?case
    by (cases "targetSubDir_of opts cats t fl") (auto simp: Let_def)
qed


lemma organize_files_sources:
  assumes "organize_files e opts cats t files acc h s = (s', h', r)"
    and "\<forall>c \<in> set h. call_src c \<in> entry_path ` set files"
  shows "\<forall>c \<in> set h'. call_src c \<in> entry_path ` set files"
proof -
  from assms have "\<exists>a. (\<forall>c \<in> set h'. call_src c \<in> entry_path ` set files)
                       \<and> (r = Inr a \<or> (\<exists>err. r = Inl err))"
    by (rule organize_files_invariant[where
          I = "\<lambda>a hh ss. \<forall>c \<in> set hh. call_src c \<in> entry_path ` set files" and F = "set files"])
       simp_all
  then show ?thesis by blast
qed

lemma organize_files_ops:
  assumes "organize_files e opts cats t files acc h s = (s', h', Inr acc')"
    and "ops acc = map to_op (filter call_ok h)" and "\<forall>c \<in> set h. faithful c"
    and "processedCount acc = length (ops acc)"
  shows "ops acc' = map to_op (filter call_ok h') \<and> (\<forall>c \<in> set h'. faithful c)
         \<and> processedCount acc' = length (ops acc')"
proof -
  have "\<exists>a. (ops a = map to_op (filter call_ok h') \<and> (\<forall>c \<in> set h'. faithful c)
              \<and> processedCount a = length (ops a))
            \<and> ((Inr acc' :: error + progress) = Inr a \<or> (\<exists>err. (Inr acc' :: error + progress) = Inl err))"
    using assms(2-4)
    by (intro organize_files_invariant[where
          I = "\<lambda>(a::progress) hh (ss::fs). ops a = map to_op (filter call_ok hh)
                 \<and> (\<forall>c \<in> set hh. faithful c) \<and> processedCount a = length (ops a)"
          and F = "set files", OF assms(1)])
       (simp_all add: to_op_def faithful_def)
  then show ?thesis by auto
qed

lemma organize_files_no_move:
  assumes "organize_files e opts cats t files acc h s = (s', h', Inr acc')"
  shows "length (ops acc) \<le> length (ops acc') \<and> (ops acc' = ops acc \<longrightarrow> same_files s s')"
proof -
  have "\<exists>a. (length (ops acc) \<le> length (ops a)
               \<and> (length (ops a) = length (ops acc) \<longrightarrow> same_files s s'))
            \<and> ((Inr acc' :: error + progress) = Inr a \<or> (\<exists>err. (Inr acc' :: error + progress) = Inl err))"
  proof (rule organize_files_invariant[where
          I = "\<lambda>(a::progress) (hh::history) ss. length (ops acc) \<le> length (ops a)
                 \<and> (length (ops a) = length (ops acc) \<longrightarrow> same_files s ss)"
          and F = "set files", OF assms], goal_cases)
    case (5 f sub a hh s0 s1 err)
    from 5(5) have "same_files s0 s1"
      unfolding fs_mkdir_p_def by (rule mkdirs_same_files)
    with 5(2) show ?case
      by (auto intro: same_files_trans)
  qed (simp_all add: same_files_refl)
  then show ?thesis by auto
qed

section \<open>Runs of organize and undo\<close>

lemma organizeDirectory_cases:
  assumes "organizeDirectory e s a opts = (s', h, r)"
  shows "(s' = s \<and> h = [] \<and> (r = Inr NothingToOrganize \<or> (\<exists>err. r = Inl err)))
       \<or> (\<exists>str cats files s1 lr.
             a = Str str \<and> \<not> invalid_targetDir a
             \<and> fs_lookup s (path_resolve (cwd e) str) = Some Dir
             \<and> categories_of opts = Inr cats
             \<and> discover s (path_resolve (cwd e) str) (map fst cats) (ignorePatterns_of opts)
                  (recursive opts) = Inr files
             \<and> organize_files e opts cats (path_resolve (cwd e) str) files no_progress [] s
                  = (s1, h, lr)
             \<and> (case lr of
                   Inl err \<Rightarrow> s' = s1 \<and> r = Inl err
                 | Inr acc \<Rightarrow>
                     (s', r) = finish_run e opts cats (path_resolve (cwd e) str) (length files) s1 acc))"
proof (cases a)
  case NotAString
  with assms show ?thesis by (auto simp: organizeDirectory_def)
next
  case (Str str)
  let ?t = "path_resolve (cwd e) str"
  show ?thesis
  proof (cases "invalid_targetDir (Str str) \<or> fs_lookup s ?t \<noteq> Some Dir")
    case True
    with assms Str have "s' = s \<and> h = [] \<and> (\<exists>err. r = Inl err)"
      by (auto simp: organizeDirectory_def Let_def fs_access_def fs_stat_def
               split: if_splits option.splits node.splits)
    then show ?thesis by blast
  next
    case ok: False
    then have valid: "\<not> invalid_targetDir (Str str)" and dir: "fs_lookup s ?t = Some Dir"
      by simp_all
    from dir have acc: "fs_access s ?t" and stat: "fs_stat s ?t = Inr Dir"
      by (simp_all add: fs_access_def fs_stat_def)
    note unfold = organizeDirectory_def Let_def Str valid acc stat
    show ?thesis
    proof (cases "categories_of opts")
      case (Inl err)
      with assms have "s' = s \<and> h = [] \<and> (\<exists>err. r = Inl err)"
        by (auto simp: unfold)
      then show ?thesis by blast
    next
      case cats: (Inr cats)
      show ?thesis
      proof (cases "discover s ?t (map fst cats) (ignorePatterns_of opts) (recursive opts)")
        case (Inl err)
        with assms cats have "s' = s \<and> h = [] \<and> (\<exists>err. r = Inl err)"
          by (auto simp: unfold)
        then show ?thesis by blast
      next
        case files: (Inr files)
        show ?thesis
        proof (cases "files = []")
          case True
          with assms cats files have "s' = s \<and> h = [] \<and> r = Inr NothingToOrganize"
            by (auto simp: unfold)
          then show ?thesis by blast
        next
          case False
          obtain s1 h1 lr where loop:
            "organize_files e opts cats ?t files no_progress [] s = (s1, h1, lr)"
            by (metis prod_cases3)
          from assms cats files False loop
          have "h = h1 \<and> (case lr of
                   Inl err \<Rightarrow> s' = s1 \<and> r = Inl err
                 | Inr acc \<Rightarrow> (s', r) = finish_run e opts cats ?t (length files) s1 acc)"
            by (auto simp: unfold split: sum.splits prod.splits)
          with Str valid dir cats files loop show ?thesis
            by blast
        qed
      qed
    qed
  qed
qed










section \<open>No overwrite\<close>




section \<open>Discovery skip rules\<close>

text \<open>
  The claim C7 as stated fails below the root: in a recursive run a regular file whose
  name is a category name is collected from a subdirectory, and moved. Only directories
  with such a name are skipped there.
\<close>

theorem nested_category_name_counterexample:
  "''Others'' \<in> set (map fst defaultCategories)
   \<and> discover d_nested [''r''] (map fst defaultCategories) [] True
       = Inr [\<lparr>entry_name = ''Others'', entry_path = [''r'', ''sub'', ''Others''],
               entry_stats = \<lparr>content = Bytes 1, mtime = t0, immutable = False\<rparr>\<rparr>]
   \<and> map (\<lambda>c. (call_src c, call_dst c, call_ok c))
         (fst (snd (organizeDirectory e0 d_nested (Str ''/r'') (o0\<lparr>recursive := True\<rparr>))))
       = [([''r'', ''sub'', ''Others''], [''r'', ''Others'', ''Others''], True)]"
  by code_simp

text \<open>
  C7, amended. Every discovered file lies below the target directory on a path none of
  whose components is the log's file name; its first component is not a category name
  (at the root every entry with such a name is skipped, file or directory), and no
  directory on the way to it has a category name (in a recursive run such directories are
  not entered); without recursion the file lies directly in the target directory. The
  same holds of the source of every rename that a run of \<open>organizeDirectory\<close> issues.
\<close>

theorem discovery_skips:
  "(discover s targetDir categoryFolders ignorePatterns rec = Inr files \<and> f \<in> set files
      \<longrightarrow> (\<exists>rel. entry_path f = targetDir @ rel \<and> entry_name f = last rel \<and> rel \<noteq> []
               \<and> LOG_FILE_NAME \<notin> set rel \<and> hd rel \<notin> set categoryFolders
               \<and> set (butlast rel) \<inter> set categoryFolders = {}
               \<and> (\<not> rec \<longrightarrow> length rel = 1))
          \<and> fs_lookup s (entry_path f) = Some (File (entry_stats f)))
   \<and> (organizeDirectory e s (Str str) opts = (s', h, r) \<and> categories_of opts = Inr cats \<and> c \<in> set h
      \<longrightarrow> (\<exists>rel. call_src c = path_resolve (cwd e) str @ rel \<and> rel \<noteq> []
               \<and> LOG_FILE_NAME \<notin> set rel \<and> hd rel \<notin> set (map fst cats)
               \<and> set (butlast rel) \<inter> set (map fst cats) = {}
               \<and> (\<not> recursive opts \<longrightarrow> length rel = 1)))"
proof -
  have found: "(\<exists>rel. entry_path g = t @ rel \<and> entry_name g = last rel \<and> rel \<noteq> []
               \<and> LOG_FILE_NAME \<notin> set rel \<and> hd rel \<notin> set cf
               \<and> set (butlast rel) \<inter> set cf = {}
               \<and> (\<not> rc \<longrightarrow> length rel = 1))
          \<and> fs_lookup st (entry_path g) = Some (File (entry_stats g))"
    if "discover st t cf ip rc = Inr fls" "g \<in> set fls" for st t cf ip rc fls g
  proof -
    from discover_found[OF that]
    obtain rel where rel: "entry_path g = t @ rel" "entry_name g = last rel" "passes cf True rel"
      "fs_lookup st (entry_path g) = Some (File (entry_stats g))"
      and len: "\<not> rc \<longrightarrow> length (entry_path g) = Suc (length t)"
      unfolding found_at_def by blast
    from rel(1) len have "\<not> rc \<longrightarrow> length rel = 1"
      by simp
    with rel show ?thesis
      unfolding passes_def by blast
  qed
  have moved: "\<exists>rel. call_src c = path_resolve (cwd e) str @ rel \<and> rel \<noteq> []
               \<and> LOG_FILE_NAME \<notin> set rel \<and> hd rel \<notin> set (map fst cats)
               \<and> set (butlast rel) \<inter> set (map fst cats) = {}
               \<and> (\<not> recursive opts \<longrightarrow> length rel = 1)"
    if run: "organizeDirectory e s (Str str) opts = (s', h, r)" and cats: "categories_of opts = Inr cats"
      and c: "c \<in> set h"
  proof -
    let ?t = "path_resolve (cwd e) str"
    from organizeDirectory_cases[OF run] c cats
    obtain files s1 lr where
      disc: "discover s ?t (map fst cats) (ignorePatterns_of opts) (recursive opts) = Inr files"
      and loop: "organize_files e opts cats ?t files no_progress [] s = (s1, h, lr)"
      by auto
    from organize_files_sources[OF loop] c obtain g where g: "g \<in> set files" "call_src c = entry_path g"
      by auto
    from found[OF disc g(1)] g(2) show ?thesis
      by auto
  qed
  from found[of s targetDir categoryFolders ignorePatterns rec files f] moved show ?thesis
    by blast
qed

theorem discovery_skips_witness:
  "(\<exists>rel. [''r'', ''sub'', ''Others''] = [''r''] @ rel \<and> ''Others'' = last rel \<and> rel \<noteq> []
       \<and> LOG_FILE_NAME \<notin> set rel \<and> hd rel \<notin> set (map fst defaultCategories)
       \<and> set (butlast rel) \<inter> set (map fst defaultCategories) = {})
   \<and> fs_lookup d_nested [''r'', ''sub'', ''Others''] = Some (plain 1)
   \<and> map call_src (fst (snd (organizeDirectory e0 d_nested (Str ''/r'') (o0\<lparr>recursive := True\<rparr>))))
       = [[''r'', ''sub'', ''Others'']]
   \<and> (\<exists>rel. [''r'', ''sub'', ''Others''] = [''r''] @ rel \<and> rel \<noteq> []
       \<and> LOG_FILE_NAME \<notin> set rel \<and> hd rel \<notin> set (map fst defaultCategories)
       \<and> set (butlast rel) \<inter> set (map fst defaultCategories) = {})"
proof -
  let ?opts = "o0\<lparr>recursive := True\<rparr>"
  let ?run = "organizeDirectory e0 d_nested (Str ''/r'') ?opts"
  let ?f = "\<lparr>entry_name = ''Others'', entry_path = [''r'', ''sub'', ''Others''],
              entry_stats = \<lparr>content = Bytes 1, mtime = t0, immutable = False\<rparr>\<rparr>"
  let ?c = "hd (fst (snd ?run))"
  have disc: "discover d_nested [''r''] (map fst defaultCategories) [] True = Inr [?f]"
    by code_simp
  have srcs: "map call_src (fst (snd ?run)) = [[''r'', ''sub'', ''Others'']]"
    by code_simp
  then have c: "?c \<in> set (fst (snd ?run))" and src: "call_src ?c = [''r'', ''sub'', ''Others'']"
    by (cases "fst (snd ?run)"; auto)+
  have res: "path_resolve (cwd e0) ''/r'' = [''r'']" "categories_of ?opts = Inr defaultCategories"
    by (simp_all add: path_resolve_def e0_def o0_def startsWith_def normalize_step_def categories_of_def)
  have eq: "x = (fst x, fst (snd x), snd (snd x))" for x :: "fs \<times> history \<times> (error + organize_result)"
    by simp
  note inst = discovery_skips[of d_nested "[''r'']" "map fst defaultCategories" "[]" True "[?f]" ?f
      e0 "''/r''" ?opts "fst ?run" "fst (snd ?run)" "snd (snd ?run)" defaultCategories ?c]
  from inst disc have
    "(\<exists>rel. [''r'', ''sub'', ''Others''] = [''r''] @ rel \<and> ''Others'' = last rel \<and> rel \<noteq> []
       \<and> LOG_FILE_NAME \<notin> set rel \<and> hd rel \<notin> set (map fst defaultCategories)
       \<and> set (butlast rel) \<inter> set (map fst defaultCategories) = {})
     \<and> fs_lookup d_nested [''r'', ''sub'', ''Others''] = Some (plain 1)"
    by (simp add: plain_def)
  moreover from inst c src res eq[of ?run] have
    "\<exists>rel. [''r'', ''sub'', ''Others''] = [''r''] @ rel \<and> rel \<noteq> []
       \<and> LOG_FILE_NAME \<notin> set rel \<and> hd rel \<notin> set (map fst defaultCategories)
       \<and> set (butlast rel) \<inter> set (map fst defaultCategories) = {}"
    by simp
  ultimately show ?thesis
    using srcs by blast
qed

section \<open>The log of a run\<close>

lemma same_files_readLog: "same_files s s' \<Longrightarrow> readLog s' d = readLog s d"
proof -
  assume sf: "same_files s s'"
  let ?p = "d @ [LOG_FILE_NAME]"
  show ?thesis
  proof (cases "\<exists>i. fs_lookup s ?p = Some (File i)")
    case True
    then obtain i where "fs_lookup s ?p = Some (File i)" by blast
    moreover from this sf have "fs_lookup s' ?p = Some (File i)"
      by (simp add: same_files_def)
    ultimately show ?thesis
      by (simp add: readLog_def fs_readFile_def)
  next
    case False
    with sf have "\<nexists>i. fs_lookup s' ?p = Some (File i)"
      by (simp add: same_files_def)
    with False show ?thesis
      by (auto simp: readLog_def fs_readFile_def split: option.splits node.splits)
  qed
qed

lemma remove_if_empty_same_files: "same_files s (remove_if_empty s p)"
  by (auto simp: same_files_def remove_if_empty_def fs_rmdir_def lookup_remove_entry
           split: sum.splits option.splits node.splits if_splits)

lemma cleanup_entries_same_files: "same_files s (cleanup_entries s dir cf es)"
proof (induction s dir cf es rule: cleanup_entries.induct)
  case (1 s dir categoryFolders)
  then show ?case by (simp add: cleanup_entries.simps same_files_refl)
next
  case (2 s dir cf entry entries)
  note simp = cleanup_entries.simps(2)[of s dir cf entry entries]
  show ?case
  proof (cases "entry \<in> set cf")
    case True
    with "2.IH"(1) show ?thesis by (simp add: simp)
  next
    case False
    show ?thesis
    proof (cases "fs_stat s (dir @ [entry])")
      case (Inl err)
      with False "2.IH"(2) show ?thesis by (simp add: simp)
    next
      case (Inr n)
      show ?thesis
      proof (cases n)
        case (File i)
        with False Inr "2.IH"(3) show ?thesis by (simp add: simp)
      next
        case Dir
        show ?thesis
        proof (cases "fs_readdir s (dir @ [entry])")
          case (Inl err)
          with False Inr Dir "2.IH"(4) show ?thesis by (simp add: simp)
        next
          case sub: (Inr subEntries)
          let ?s1 = "cleanup_entries s (dir @ [entry]) cf subEntries"
          let ?s2 = "remove_if_empty ?s1 (dir @ [entry])"
          have "same_files s ?s1"
            using "2.IH"(5)[OF False Inr Dir sub] .
          moreover have "same_files ?s1 ?s2"
            by (rule remove_if_empty_same_files)
          moreover have "same_files ?s2 (cleanup_entries ?s2 dir cf entries)"
            using "2.IH"(6)[OF False Inr Dir sub] .
          ultimately have "same_files s (cleanup_entries ?s2 dir cf entries)"
            by (blast intro: same_files_trans)
          with False Inr Dir sub show ?thesis by (simp add: simp)
        qed
      next
        case BrokenLink
        with False Inr "2.IH"(7) show ?thesis by (simp add: simp)
      qed
    qed
  qed
qed

lemma saveLog_readLog:
  "saveLog now s t opns = Inr s2
    \<Longrightarrow> \<exists>existing. readLog s2 t = Some (existing @ [\<lparr>timestamp = iso now, operations = opns\<rparr>])"
  by (auto simp: saveLog_def Let_def readLog_def readFile_writeFile JSON_parse_def)

lemma organize_files_faithful:
  assumes "organize_files e opts cats t files acc [] s = (s', h', r)"
  shows "\<forall>c \<in> set h'. faithful c"
proof -
  have "\<exists>a. (\<forall>c \<in> set h'. faithful c) \<and> (r = Inr a \<or> (\<exists>err. r = Inl err))"
    by (rule organize_files_invariant[where I = "\<lambda>a hh ss. \<forall>c \<in> set hh. faithful c"
          and F = "set files", OF assms])
       (simp_all add: faithful_def)
  then show ?thesis by blast
qed

lemma organize_files_no_success:
  assumes "organize_files e opts cats t files acc [] s = (s', h', r)"
  shows "filter call_ok h' = [] \<longrightarrow> same_files s s'"
proof -
  have "\<exists>a. (filter call_ok h' = [] \<longrightarrow> same_files s s') \<and> (r = Inr a \<or> (\<exists>err. r = Inl err))"
  proof (rule organize_files_invariant[where
          I = "\<lambda>a hh ss. filter call_ok hh = [] \<longrightarrow> same_files s ss" and F = "set files", OF assms],
         goal_cases)
    case (5 f sub a hh s0 s1 err)
    from 5(5) have "same_files s0 s1"
      unfolding fs_mkdir_p_def by (rule mkdirs_same_files)
    with 5(2) show ?case
      by (auto intro: same_files_trans)
  qed (simp_all add: same_files_refl)
  then show ?thesis by blast
qed

text \<open>
  C8. In every run of \<open>organizeDirectory\<close> the history is faithful, and when the run
  ends with its summary the operations of the batch are exactly the rename calls that
  succeeded, in their order, one per processed file: an operation is recorded only
  after its rename succeeded. A dry run changes nothing on the disk and issues no
  rename; a run in which no rename succeeded leaves every regular file, and with it the
  log, as it was. A run that is not dry and moved something ends with a log whose last
  batch holds exactly these operations.
\<close>

theorem log_records_real_moves:
  "organizeDirectory e s a opts = (s', h, r)
    \<longrightarrow> (\<forall>c \<in> set h. call_ok c = (\<not> isl (fs_rename (call_state c) (call_src c) (call_dst c))))
      \<and> (\<forall>n acc. r = Inr (Organized n acc)
            \<longrightarrow> ops acc = map to_op (filter call_ok h) \<and> processedCount acc = length (ops acc))
      \<and> (dryRun opts \<longrightarrow> s' = s \<and> h = [])
      \<and> (filter call_ok h = [] \<longrightarrow> same_files s s' \<and> (\<forall>d. readLog s' d = readLog s d))
      \<and> (\<forall>n acc. r = Inr (Organized n acc) \<and> \<not> dryRun opts \<and> ops acc \<noteq> []
            \<longrightarrow> (\<exists>str existing. a = Str str
                   \<and> readLog s' (path_resolve (cwd e) str)
                       = Some (existing @ [\<lparr>timestamp = iso (clock e), operations = ops acc\<rparr>])))"
proof
  assume run: "organizeDirectory e s a opts = (s', h, r)"
  from organizeDirectory_cases[OF run]
  consider (early) "s' = s" "h = []" "r = Inr NothingToOrganize \<or> (\<exists>err. r = Inl err)"
    | (loop) str cats files s1 lr where "a = Str str"
        "organize_files e opts cats (path_resolve (cwd e) str) files no_progress [] s = (s1, h, lr)"
        "case lr of
           Inl err \<Rightarrow> s' = s1 \<and> r = Inl err
         | Inr acc \<Rightarrow> (s', r) = finish_run e opts cats (path_resolve (cwd e) str) (length files) s1 acc"
    by blast
  then show "(\<forall>c \<in> set h. call_ok c = (\<not> isl (fs_rename (call_state c) (call_src c) (call_dst c))))
      \<and> (\<forall>n acc. r = Inr (Organized n acc)
            \<longrightarrow> ops acc = map to_op (filter call_ok h) \<and> processedCount acc = length (ops acc))
      \<and> (dryRun opts \<longrightarrow> s' = s \<and> h = [])
      \<and> (filter call_ok h = [] \<longrightarrow> same_files s s' \<and> (\<forall>d. readLog s' d = readLog s d))
      \<and> (\<forall>n acc. r = Inr (Organized n acc) \<and> \<not> dryRun opts \<and> ops acc \<noteq> []
            \<longrightarrow> (\<exists>str existing. a = Str str
                   \<and> readLog s' (path_resolve (cwd e) str)
                       = Some (existing @ [\<lparr>timestamp = iso (clock e), operations = ops acc\<rparr>])))"
  proof cases
    case early
    then show ?thesis
      by (auto simp: same_files_refl)
  next
    case loop
    let ?t = "path_resolve (cwd e) str"
    note files = loop(2)
    have faith: "\<forall>c \<in> set h. faithful c"
      using organize_files_faithful[OF files] .
    have nosucc: "filter call_ok h = [] \<longrightarrow> same_files s s1"
      using organize_files_no_success[OF files] .
    have dry: "dryRun opts \<longrightarrow> s1 = s \<and> h = []"
      using organize_files_dry[OF _ files] by blast
    show ?thesis
    proof (cases lr)
      case (Inl err)
      with loop(3) have "s' = s1" "r = Inl err" by simp_all
      with faith nosucc dry show ?thesis
        by (auto simp: faithful_def same_files_readLog)
    next
      case (Inr acc)
      with loop(3) have fin: "(s', r) = finish_run e opts cats ?t (length files) s1 acc"
        by simp
      from files Inr have opsacc: "ops acc = map to_op (filter call_ok h)"
        and count: "processedCount acc = length (ops acc)"
        using organize_files_ops[of e opts cats ?t files no_progress "[]" s s1 h acc]
        by (simp_all add: no_progress_def)
      have quiet: "s' = s1" if "dryRun opts \<or> ops acc = []"
        using that fin by (auto simp: finish_run_def)
      have result: "n = length files \<and> acc' = acc" if "r = Inr (Organized n acc')" for n acc'
        using that fin
        by (auto simp: finish_run_def split: sum.splits if_splits)
      have logged: "\<exists>existing. readLog s' ?t
                       = Some (existing @ [\<lparr>timestamp = iso (clock e), operations = ops acc\<rparr>])"
        if ok: "r = Inr (Organized n acc)" and wet: "\<not> dryRun opts" and some: "ops acc \<noteq> []" for n
      proof -
        from fin ok wet some obtain s2 where s2: "saveLog (clock e) s1 ?t (ops acc) = Inr s2"
          and s3: "same_files s2 s'"
          by (auto simp: finish_run_def cleanupEmptyDirectories_def same_files_refl
                         cleanup_entries_same_files split: sum.splits if_splits)
        from saveLog_readLog[OF s2] same_files_readLog[OF s3] show ?thesis
          by simp
      qed
      have c1: "\<forall>c \<in> set h. call_ok c = (\<not> isl (fs_rename (call_state c) (call_src c) (call_dst c)))"
        using faith by (simp add: faithful_def)
      have c2: "\<forall>n acc'. r = Inr (Organized n acc')
            \<longrightarrow> ops acc' = map to_op (filter call_ok h) \<and> processedCount acc' = length (ops acc')"
        using result opsacc count by blast
      have c3: "dryRun opts \<longrightarrow> s' = s \<and> h = []"
        using dry quiet by blast
      have c4: "filter call_ok h = [] \<longrightarrow> same_files s s' \<and> (\<forall>d. readLog s' d = readLog s d)"
        using nosucc quiet opsacc by (auto simp: same_files_readLog)
      have c5: "\<forall>n acc'. r = Inr (Organized n acc') \<and> \<not> dryRun opts \<and> ops acc' \<noteq> []
            \<longrightarrow> (\<exists>str existing. a = Str str
                   \<and> readLog s' (path_resolve (cwd e) str)
                       = Some (existing @ [\<lparr>timestamp = iso (clock e), operations = ops acc'\<rparr>]))"
        using result logged loop(1) by blast
      from c1 c2 c3 c4 c5 show ?thesis by blast
    qed
  qed
qed

theorem log_records_real_moves_witness:
  "ops (progress_of (projr (snd (snd (organizeDirectory e0 d_stuck (Str ''/r'') o0)))))
     = map to_op (filter call_ok (fst (snd (organizeDirectory e0 d_stuck (Str ''/r'') o0))))
   \<and> map call_ok (fst (snd (organizeDirectory e0 d_stuck (Str ''/r'') o0))) = [False, True]
   \<and> (\<exists>existing. readLog (fst (organizeDirectory e0 d_stuck (Str ''/r'') o0)) [''r'']
          = Some (existing @ [\<lparr>timestamp = iso t1,
                operations = [\<lparr>original = [''r'', ''b.txt''], movedTo = [''r'', ''Documents'', ''b.txt'']\<rparr>]\<rparr>]))
   \<and> organizeDirectory e0 d_stuck (Str ''/r'') (o0\<lparr>dryRun := True\<rparr>)
       = (d_stuck, [], Inr (Organized 2 no_progress))
   \<and> map call_ok (fst (snd (organizeDirectory e0 d_only_stuck (Str ''/r'') o0))) = [False]
   \<and> readLog (fst (organizeDirectory e0 d_only_stuck (Str ''/r'') o0)) [''r''] = Some [batch2]"
proof -
  let ?run = "organizeDirectory e0 d_stuck (Str ''/r'') o0"
  let ?dry = "organizeDirectory e0 d_stuck (Str ''/r'') (o0\<lparr>dryRun := True\<rparr>)"
  let ?none = "organizeDirectory e0 d_only_stuck (Str ''/r'') o0"
  let ?acc = "\<lparr>ops = [\<lparr>original = [''r'', ''b.txt''], movedTo = [''r'', ''Documents'', ''b.txt'']\<rparr>],
               processedCount = 1, skippedCount = 0\<rparr>"
  have r1: "snd (snd ?run) = Inr (Organized 2 ?acc)"
    by code_simp
  have oks: "map call_ok (fst (snd ?run)) = [False, True]"
    by code_simp
  have res: "path_resolve (cwd e0) ''/r'' = [''r'']" "clock e0 = t1" "\<not> dryRun o0"
    by (simp_all add: path_resolve_def e0_def o0_def startsWith_def normalize_step_def)
  have eq: "x = (fst x, fst (snd x), snd (snd x))" for x :: "fs \<times> history \<times> (error + organize_result)"
    by simp
  note a = log_records_real_moves[of e0 d_stuck "Str ''/r''" o0 "fst ?run" "fst (snd ?run)" "snd (snd ?run)",
      THEN mp, OF eq]
  from a r1 have "ops ?acc = map to_op (filter call_ok (fst (snd ?run)))"
    by simp
  with r1 have w1: "ops (progress_of (projr (snd (snd ?run)))) = map to_op (filter call_ok (fst (snd ?run)))"
    by simp
  from a have "\<forall>n acc. snd (snd ?run) = Inr (Organized n acc) \<and> \<not> dryRun o0 \<and> ops acc \<noteq> []
       \<longrightarrow> (\<exists>str existing. Str ''/r'' = Str str
              \<and> readLog (fst ?run) (path_resolve (cwd e0) str)
                  = Some (existing @ [\<lparr>timestamp = iso (clock e0), operations = ops acc\<rparr>]))"
    by blast
  from this[rule_format, of 2 ?acc] r1 res(3)
  have "\<exists>str existing. Str ''/r'' = Str str
       \<and> readLog (fst ?run) (path_resolve (cwd e0) str)
           = Some (existing @ [\<lparr>timestamp = iso (clock e0), operations = ops ?acc\<rparr>])"
    by simp
  with res have w2: "\<exists>existing. readLog (fst ?run) [''r'']
          = Some (existing @ [\<lparr>timestamp = iso t1,
                operations = [\<lparr>original = [''r'', ''b.txt''], movedTo = [''r'', ''Documents'', ''b.txt'']\<rparr>]\<rparr>])"
    by auto
  have r2: "snd (snd ?dry) = Inr (Organized 2 no_progress)"
    by code_simp
  from log_records_real_moves[of e0 d_stuck "Str ''/r''" "o0\<lparr>dryRun := True\<rparr>"
      "fst ?dry" "fst (snd ?dry)" "snd (snd ?dry)", THEN mp, OF eq]
  have "fst ?dry = d_stuck \<and> fst (snd ?dry) = []"
    by simp
  with r2 have w3: "?dry = (d_stuck, [], Inr (Organized 2 no_progress))"
    by (simp add: prod_eq_iff)
  have oks3: "map call_ok (fst (snd ?none)) = [False]"
    by code_simp
  then have "filter call_ok (fst (snd ?none)) = []"
    by (cases "fst (snd ?none)") auto
  with log_records_real_moves[of e0 d_only_stuck "Str ''/r''" o0
      "fst ?none" "fst (snd ?none)" "snd (snd ?none)", THEN mp, OF eq]
  have "readLog (fst ?none) [''r''] = readLog d_only_stuck [''r'']"
    by simp
  moreover have "readLog d_only_stuck [''r''] = Some [batch2]"
    by (simp add: readLog_def fs_readFile_def fs_lookup_def d_only_stuck_def LOG_FILE_NAME_def
          logged_def JSON_parse_def)
  ultimately have w4: "readLog (fst ?none) [''r''] = Some [batch2]"
    by simp
  from w1 oks w2 w3 oks3 w4 show ?thesis
    by blast
qed

section \<open>A failed move\<close>

text \<open>The part of C6 that holds: a failed \<open>rename\<close> leaves the loop variables as they
  were and the loop goes on with the next file.\<close>

lemma organize_files_failed_move:
  assumes "targetSubDir_of opts cats t f = Some sub" and "\<not> dryRun opts"
    and "\<not> (interactive opts \<and> \<not> confirm e (entry_path f) (getUniqueFilePath s (sub @ [entry_name f])))"
    and "fs_mkdir_p s sub = Inr s1"
    and "fs_rename s1 (entry_path f) (getUniqueFilePath s (sub @ [entry_name f])) = Inl err"
  shows "organize_files e opts cats t (f # rest) acc h s
         = organize_files e opts cats t rest acc
             (h @ [\<lparr>call_state = s1, call_src = entry_path f,
                     call_dst = getUniqueFilePath s (sub @ [entry_name f]), call_ok = False\<rparr>])
             s1"
proof -
  from assms(3)
  have go: "(interactive opts \<and> \<not> confirm e (entry_path f) (getUniqueFilePath s (sub @ [entry_name f])))
          = False"
    by blast
  show ?thesis
    by (simp add: Let_def assms(1,2,4,5) go)
qed

text \<open>
  C6. The run below finds two files; the rename of the immutable \<open>a.txt\<close> fails and is
  caught, \<open>b.txt\<close> is moved, and the run ends with its summary. The failure is in neither
  counter: \<open>processedCount\<close> is 1 and \<open>skippedCount\<close> is 0, where the catch block of
  \<open>undoOrganize\<close> counts such a failure in \<open>errorCount\<close>.
\<close>

theorem failed_move_not_counted:
  "snd (snd (organizeDirectory e0 d_stuck (Str ''/r'') o0))
     = Inr (Organized 2
         \<lparr>ops = [\<lparr>original = [''r'', ''b.txt''], movedTo = [''r'', ''Documents'', ''b.txt'']\<rparr>],
           processedCount = 1, skippedCount = 0\<rparr>)
   \<and> map (\<lambda>c. (call_src c, call_ok c)) (fst (snd (organizeDirectory e0 d_stuck (Str ''/r'') o0)))
       = [([''r'', ''a.txt''], False), ([''r'', ''b.txt''], True)]
   \<and> fs_lookup (fst (organizeDirectory e0 d_stuck (Str ''/r'') o0)) [''r'', ''a.txt''] = Some (stuck 1)"
  by code_simp

section \<open>Organize, then undo\<close>

text \<open>
  C2. A recursive run moves \<open>sub/old.txt\<close> to \<open>Documents/old.txt\<close>, writes the log and
  prunes the now empty \<open>sub\<close>. The undo that follows resolves the original path, which
  is free, and renames to it; the rename fails because the directory \<open>sub\<close> is gone and
  nothing creates it again. The file stays in \<open>Documents\<close>, the error is counted, and the
  batch is dropped with the log file, so no later undo can restore the file either.
\<close>

theorem recursive_undo_strands_file:
  "fst (organizeDirectory e0 d_sub (Str ''/r'') (o0\<lparr>recursive := True\<rparr>))
     = [([''r'', ''Documents'', ''old.txt''], plain 1), ([], Dir), ([''r''], Dir),
        ([''r'', ''Documents''], Dir),
        ([''r'', ''.segre-log.json''],
         File \<lparr>content = LogText [\<lparr>timestamp = iso t1,
                    operations = [\<lparr>original = [''r'', ''sub'', ''old.txt''],
                                   movedTo = [''r'', ''Documents'', ''old.txt'']\<rparr>]\<rparr>],
               mtime = t1, immutable = False\<rparr>)]
   \<and> undoOrganize e0 (fst (organizeDirectory e0 d_sub (Str ''/r'') (o0\<lparr>recursive := True\<rparr>))) (Str ''/r'')
     = ([([''r'', ''Documents'', ''old.txt''], plain 1), ([], Dir), ([''r''], Dir),
         ([''r'', ''Documents''], Dir)],
        [\<lparr>call_state = [([''r'', ''Documents'', ''old.txt''], plain 1), ([], Dir), ([''r''], Dir),
                        ([''r'', ''Documents''], Dir),
                        ([''r'', ''.segre-log.json''],
                         File \<lparr>content = LogText [\<lparr>timestamp = iso t1,
                                    operations = [\<lparr>original = [''r'', ''sub'', ''old.txt''],
                                                   movedTo = [''r'', ''Documents'', ''old.txt'']\<rparr>]\<rparr>],
                               mtime = t1, immutable = False\<rparr>)],
          call_src = [''r'', ''Documents'', ''old.txt''], call_dst = [''r'', ''sub'', ''old.txt''],
          call_ok = False\<rparr>],
        Inr (Undone \<lparr>restoredCount = 0, errorCount = 1\<rparr>))"
  by code_simp

end
